theory Spec2Isabelle
  imports Main "HOL-Library.Sublist" "HOL-Library.Multiset" "HOL-Library.Word"
begin

section \<open>The bulk uploader of transform.go\<close>

text \<open>
  The development embeds \<^verbatim>\<open>transform.go\<close>: the article record, the renderer
  (\<^verbatim>\<open>cleanHTML\<close>, \<^verbatim>\<open>buildHTML\<close>, \<^verbatim>\<open>buildMetadata\<close>), the submitter
  (\<^verbatim>\<open>NewTransformer\<close>, \<^verbatim>\<open>postItem\<close>), the item processor (\<^verbatim>\<open>processFile\<close>),
  the two list-file helpers (\<^verbatim>\<open>readFileList\<close>, \<^verbatim>\<open>saveFilesToFile\<close>) and the
  worker pool of \<^verbatim>\<open>main\<close>. Go strings are byte sequences, so they are \<^typ>\<open>string\<close>
  (lists of 8-bit characters). Functions of the Go standard library that the
  program calls are modelled from their documented behaviour, each under its Go
  name.
\<close>

subsection \<open>Data model\<close>

record Article =
  Title :: string
  Content :: string
  Excerpt :: string
  Link :: string
  PublishDate :: string
  UpdatedDate :: string

subsection \<open>Library: \<^verbatim>\<open>strings.Replacer\<close> and \<^verbatim>\<open>html.EscapeString\<close>\<close>

text \<open>
  \<^verbatim>\<open>strings.NewReplacer(old1, new1, old2, new2, ...).Replace(s)\<close> scans \<^verbatim>\<open>s\<close> from
  left to right. At each position the old strings are compared in argument
  order; the first one that is a prefix of the rest is replaced by its new
  string and the scan continues behind the match, so matches never overlap.
  Where no old string matches, one byte is copied. The model covers replacers
  whose old strings are all non-empty, which is the case for every replacer
  of this program.
\<close>

fun lookup :: "(string \<times> string) list \<Rightarrow> string \<Rightarrow> (string \<times> string) option" where
  "lookup [] s = None"
| "lookup ((old, new) # oldnew) s =
     (if prefix old s then Some (old, new) else lookup oldnew s)"

fun Replace :: "(string \<times> string) list \<Rightarrow> string \<Rightarrow> string" where
  "Replace oldnew [] = []"
| "Replace oldnew (c # cs) =
     (case lookup oldnew (c # cs) of
        Some (old, new) \<Rightarrow> new @ Replace oldnew (drop (length old - 1) cs)
      | None \<Rightarrow> c # Replace oldnew cs)"

text \<open>
  \<^verbatim>\<open>html.EscapeString\<close> is the replacer \<^verbatim>\<open>htmlEscaper\<close> of package \<^verbatim>\<open>html\<close>: it
  escapes the five characters \<^verbatim>\<open>& ' < > "\<close>.
\<close>

definition htmlEscaper :: "(string \<times> string) list" where
  "htmlEscaper =
     [(''&'', ''&amp;''), ([CHR 0x27], ''&#39;''), (''<'', ''&lt;''),
      (''>'', ''&gt;''), ([CHR 0x22], ''&#34;'')]"

definition EscapeString :: "string \<Rightarrow> string" where
  "EscapeString s = Replace htmlEscaper s"

subsection \<open>Renderer\<close>

text \<open>\<^verbatim>\<open>cleanHTML\<close> (lines 75-79): one replacer with two pairs.\<close>

definition cleanHTML :: "string \<Rightarrow> string" where
  "cleanHTML s =
     Replace [(''<script'', ''&lt;script''), (''</script>'', ''&lt;/script&gt;'')] s"

text \<open>
  \<^verbatim>\<open>buildHTML\<close> (lines 81-95) appends to a \<^verbatim>\<open>strings.Builder\<close>; the builder is the
  text written so far, and \<^verbatim>\<open>WriteString\<close> returns it extended. The verb
  \<^verbatim>\<open>%s\<close> of \<^verbatim>\<open>fmt.Sprintf\<close> inserts a string argument as it is.
\<close>

definition WriteString :: "string \<Rightarrow> string \<Rightarrow> string" where
  "WriteString b s = b @ s"

definition buildHTML :: "Article \<Rightarrow> string" where
  \<open>buildHTML a =
     (let b0 = [];
          b1 = WriteString b0 (''<h1>'' @ EscapeString (Title a) @ ''</h1>'' @ [CHR 0x0A]);
          b2 = (if Excerpt a \<noteq> []
                then WriteString b1 (''<p>'' @ EscapeString (Excerpt a) @ ''</p>'' @ [CHR 0x0A])
                else b1);
          b3 = WriteString b2 (''<div>'' @ [CHR 0x0A]);
          b4 = WriteString b3 (cleanHTML (Content a));
          b5 = WriteString b4 ([CHR 0x0A] @ ''</div>'' @ [CHR 0x0A]);
          b6 = WriteString b5 (''<h3>Metadata</h3>'' @ [CHR 0x0A]);
          b7 = WriteString b6
                 (''<p>Source Url: <a href="'' @ Link a @ ''">'' @ Link a @ ''</a></p>'');
          b8 = WriteString b7 (''<p>Published Date: '' @ PublishDate a @ ''</p>'');
          b9 = WriteString b8 (''<p>Updated Date: '' @ UpdatedDate a @ ''</p>'')
      in b9)\<close>

text \<open>
  \<^verbatim>\<open>buildMetadata\<close> (lines 97-103) returns a Go map; all three values are
  strings.
\<close>

definition buildMetadata :: "Article \<Rightarrow> (string \<rightharpoonup> string)" where
  "buildMetadata a =
     [''title'' \<mapsto> Title a, ''creation_date'' \<mapsto> PublishDate a, ''source_url'' \<mapsto> Link a]"

subsection \<open>Library: formatting, trimming, line scanning\<close>

text \<open>The verb \<^verbatim>\<open>%d\<close> of package \<^verbatim>\<open>fmt\<close>: a decimal numeral, with a minus sign
  for a negative number.\<close>

definition digit :: "nat \<Rightarrow> char" where
  "digit d = ''0123456789'' ! d"

fun itoa :: "nat \<Rightarrow> string" where
  "itoa n = (if n < 10 then [digit n] else itoa (n div 10) @ [digit (n mod 10)])"

declare itoa.simps [simp del]

definition fmt_d :: "int \<Rightarrow> string" where
  "fmt_d i = (if i < 0 then CHR ''-'' # itoa (nat (- i)) else itoa (nat i))"

text \<open>The value of a decimal digit, to say what number a numeral denotes.\<close>

definition digit_value :: "char \<Rightarrow> nat" where
  "digit_value c = of_char c - 48"

text \<open>
  \<^verbatim>\<open>strings.TrimSpace\<close> removes the leading and the trailing runes \<open>r\<close> with
  \<^verbatim>\<open>unicode.IsSpace(r)\<close>. \<open>White_Space\<close> lists the UTF-8 encodings of these
  runes: the six ASCII ones, U+0085, U+00A0, U+1680, U+2000 to U+200A, U+2028,
  U+2029, U+202F, U+205F and U+3000. A byte sequence that is not valid UTF-8
  decodes to U+FFFD, which is no space, so trimming stops there.
\<close>

definition White_Space :: "string list" where
  "White_Space =
     [[CHR 0x09], [CHR 0x0A], [CHR 0x0B], [CHR 0x0C], [CHR 0x0D], [CHR 0x20],
      [CHR 0xC2, CHR 0x85], [CHR 0xC2, CHR 0xA0],
      [CHR 0xE1, CHR 0x9A, CHR 0x80],
      [CHR 0xE2, CHR 0x80, CHR 0x80], [CHR 0xE2, CHR 0x80, CHR 0x81],
      [CHR 0xE2, CHR 0x80, CHR 0x82], [CHR 0xE2, CHR 0x80, CHR 0x83],
      [CHR 0xE2, CHR 0x80, CHR 0x84], [CHR 0xE2, CHR 0x80, CHR 0x85],
      [CHR 0xE2, CHR 0x80, CHR 0x86], [CHR 0xE2, CHR 0x80, CHR 0x87],
      [CHR 0xE2, CHR 0x80, CHR 0x88], [CHR 0xE2, CHR 0x80, CHR 0x89],
      [CHR 0xE2, CHR 0x80, CHR 0x8A],
      [CHR 0xE2, CHR 0x80, CHR 0xA8], [CHR 0xE2, CHR 0x80, CHR 0xA9],
      [CHR 0xE2, CHR 0x80, CHR 0xAF],
      [CHR 0xE2, CHR 0x81, CHR 0x9F],
      [CHR 0xE3, CHR 0x80, CHR 0x80]]"

fun strip_runes :: "string list \<Rightarrow> string \<Rightarrow> string" where
  "strip_runes rs [] = []"
| "strip_runes rs (c # cs) =
     (case find (\<lambda>r. prefix r (c # cs)) rs of
        Some r \<Rightarrow> strip_runes rs (drop (length r - 1) cs)
      | None \<Rightarrow> c # cs)"

definition TrimLeftSpace :: "string \<Rightarrow> string" where
  "TrimLeftSpace s = strip_runes White_Space s"

definition TrimRightSpace :: "string \<Rightarrow> string" where
  "TrimRightSpace s = rev (strip_runes (map rev White_Space) (rev s))"

definition TrimSpace :: "string \<Rightarrow> string" where
  "TrimSpace s = TrimRightSpace (TrimLeftSpace s)"

definition leading_space :: "string \<Rightarrow> bool" where
  "leading_space s = list_ex (\<lambda>r. prefix r s) White_Space"

definition trailing_space :: "string \<Rightarrow> bool" where
  "trailing_space s = list_ex (\<lambda>r. suffix r s) White_Space"

definition TrimSuffix :: "string \<Rightarrow> string \<Rightarrow> string" where
  "TrimSuffix s suf = (if suffix suf s then take (length s - length suf) s else s)"

subsection \<open>Errors\<close>

text \<open>
  A Go \<^verbatim>\<open>error\<close> value. \<open>Errorf\<close> holds the text that the program formats
  itself; the text of \<open>EnvNotSet\<close> is \<^verbatim>\<open>env %q not set\<close> with the quoted
  name; the other errors come from the library and the operating system with
  their own text.
\<close>

datatype error =
    EnvNotSet string
  | Errorf string
  | OpenError string
  | CreateError string
  | WriteError string
  | ErrTooLong
  | ErrBadPattern
  | DecodeError string
  | RequestError string
  | TransportError string

text \<open>
  \<^verbatim>\<open>bufio.Scanner\<close> with its default split function \<^verbatim>\<open>ScanLines\<close> and its
  default buffer limit: a line ends at a newline, one carriage return before
  the newline is dropped, and a last line without newline is returned when it
  is not empty. The buffer holds at most \<open>MaxScanTokenSize\<close> bytes and must
  hold a line with its newline, or a last line and one byte more; a longer
  line ends the scan with \<open>ErrTooLong\<close>.
\<close>

definition MaxScanTokenSize :: nat where
  "MaxScanTokenSize = 64 * 1024"

definition dropCR :: "string \<Rightarrow> string" where
  "dropCR data = (if data \<noteq> [] \<and> last data = CHR 0x0D then butlast data else data)"

function ScanLines :: "string \<Rightarrow> error + string list" where
  "ScanLines data =
     (if data = [] then Inr []
      else
        let line = takeWhile (\<lambda>c. c \<noteq> CHR 0x0A) data in
        if MaxScanTokenSize \<le> length line then Inl ErrTooLong
        else
          (case ScanLines (drop (Suc (length line)) data) of
             Inl e \<Rightarrow> Inl e
           | Inr ls \<Rightarrow> Inr (dropCR line # ls)))"
  by pat_completeness auto
termination
  by (relation "measure length") auto

declare ScanLines.simps [simp del]

subsection \<open>The environment of the process\<close>

text \<open>
  What the program finds outside itself: the environment variables, the files
  (path to contents; \<^verbatim>\<open>os.Open\<close> fails on a path without entry), the
  result of \<^verbatim>\<open>filepath.Glob(filepath.Join(dir, "*.json"))\<close> for a directory,
  and whether \<^verbatim>\<open>os.Create\<close> and the writes to a created file succeed (a
  failed write leaves the first \<open>n\<close> bytes in the file). Three library
  functions are parameters as well: the JSON decoder of an article, the JSON
  encoder of the metadata map, and the URL check of
  \<^verbatim>\<open>http.NewRequestWithContext\<close>.
\<close>

type_synonym filesystem = "string \<rightharpoonup> string"

record world =
  environ :: "string \<rightharpoonup> string"
  disk :: filesystem
  Glob :: "string \<Rightarrow> error + string list"
  Create :: "string \<Rightarrow> error option"
  Write :: "string \<Rightarrow> string \<Rightarrow> (error \<times> nat) option"
  Decode :: "string \<Rightarrow> error + Article"
  Marshal :: "(string \<rightharpoonup> string) \<Rightarrow> string"
  NewRequest :: "string \<Rightarrow> error option"

definition Getenv :: "world \<Rightarrow> string \<Rightarrow> string" where
  "Getenv w k = (case environ w k of None \<Rightarrow> [] | Some v \<Rightarrow> v)"

subsection \<open>Submitter\<close>

record Transport =
  MaxIdleConns :: int
  MaxIdleConnsPerHost :: int
  MaxConnsPerHost :: int
  IdleConnTimeout :: nat

record Client =
  transport :: Transport
  Timeout :: nat

record Transformer =
  apiBase :: string
  client :: Client
  headers :: "string \<rightharpoonup> string list"

text \<open>\<^verbatim>\<open>NewTransformer\<close> (lines 48-69); the two timeouts are in seconds.\<close>

definition NewTransformer :: "world \<Rightarrow> string \<Rightarrow> string \<Rightarrow> int \<Rightarrow> error + Transformer" where
  "NewTransformer w apiBase0 apiKeyEnv0 maxConns0 =
     (let apiBase1 = TrimSuffix apiBase0 ''/'';
          key = Getenv w apiKeyEnv0
      in if key = [] then Inl (EnvNotSet apiKeyEnv0)
         else
           let h = Map.empty(''Authorization'' \<mapsto> [''Bearer '' @ key]);
               tr = \<lparr>MaxIdleConns = maxConns0, MaxIdleConnsPerHost = maxConns0,
                     MaxConnsPerHost = maxConns0, IdleConnTimeout = 90\<rparr>
           in Inr \<lparr>apiBase = apiBase1,
                   client = \<lparr>transport = tr, Timeout = 15\<rparr>,
                   headers = h\<rparr>)"

text \<open>
  One HTTP request, as \<^verbatim>\<open>postItem\<close> hands it to \<^verbatim>\<open>client.Do\<close>. The multipart
  body is kept as the list of its form fields in the order written; the
  boundary lines between them are not modelled. \<open>exchange\<close> is the
  environment's part in one call: the boundary that \<^verbatim>\<open>multipart.NewWriter\<close>
  draws at random and what \<^verbatim>\<open>client.Do\<close> returns, either an error or a
  response with its status code and the bytes its body delivers.
\<close>

record request =
  Method :: string
  URL :: string
  Header :: "string \<rightharpoonup> string list"
  Form :: "(string \<times> string) list"

datatype http_result = NetError string | Response int string

record exchange =
  Boundary :: string
  Reply :: http_result

definition FormDataContentType :: "string \<Rightarrow> string" where
  "FormDataContentType b = ''multipart/form-data; boundary='' @ b"

text \<open>
  \<^verbatim>\<open>postItem\<close> (lines 109-140). The result is the list of requests handed to
  the client (none or one) and the returned error, \<open>None\<close> for \<^verbatim>\<open>nil\<close>.
  \<^verbatim>\<open>io.LimitReader(resp.Body, 4<<10)\<close> reads the first 4096 bytes of the
  body.
\<close>

definition postItem ::
  "world \<Rightarrow> Transformer \<Rightarrow> string \<Rightarrow> (string \<rightharpoonup> string) \<Rightarrow> int option \<Rightarrow> exchange
     \<Rightarrow> request list \<times> error option" where
  "postItem w t htmlContent metadata collectionID x =
     (let body0 = [];
          body1 = body0 @ [(''html_content'', htmlContent)];
          metaBytes = Marshal w metadata;
          body2 = body1 @ [(''metadata'', metaBytes)];
          body3 = (case collectionID of
                     Some c \<Rightarrow> body2 @ [(''collection_id'', fmt_d c)]
                   | None \<Rightarrow> body2)
      in case NewRequest w (apiBase t @ ''/omnipub'') of
           Some err \<Rightarrow> ([], Some err)
         | None \<Rightarrow>
             let req = \<lparr>Method = ''POST'', URL = apiBase t @ ''/omnipub'',
                        Header = (headers t)(''Content-Type'' \<mapsto>
                                   [FormDataContentType (Boundary x)]),
                        Form = body3\<rparr>
             in (case Reply x of
                   NetError err \<Rightarrow> ([req], Some (TransportError err))
                 | Response StatusCode Body \<Rightarrow>
                     if StatusCode \<ge> 200 \<and> StatusCode < 300 then ([req], None)
                     else
                       let slurp = take (4 * 2 ^ 10) Body
                       in ([req],
                           Some (Errorf (''http '' @ fmt_d StatusCode @ '' '' @
                                           TrimSpace slurp)))))"

subsection \<open>Item processor\<close>

text \<open>\<^verbatim>\<open>processFile\<close> (lines 144-157).\<close>

definition processFile ::
  "world \<Rightarrow> Transformer \<Rightarrow> string \<Rightarrow> int option \<Rightarrow> exchange
     \<Rightarrow> request list \<times> error option" where
  "processFile w t file collectionID x =
     (case disk w file of
        None \<Rightarrow> ([], Some (OpenError file))
      | Some f \<Rightarrow>
          (case Decode w f of
             Inl err \<Rightarrow> ([], Some err)
           | Inr art \<Rightarrow> postItem w t (buildHTML art) (buildMetadata art) collectionID x))"

subsection \<open>List files\<close>

text \<open>\<^verbatim>\<open>readFileList\<close> (lines 266-288): the loop over the scanner's tokens.\<close>

fun collect_paths :: "string list \<Rightarrow> string list \<Rightarrow> string list" where
  "collect_paths files [] = files"
| "collect_paths files (text # tokens) =
     (let path = TrimSpace text
      in if path \<noteq> [] then collect_paths (files @ [path]) tokens
         else collect_paths files tokens)"

definition readFileList :: "filesystem \<Rightarrow> string \<Rightarrow> error + string list" where
  "readFileList fs filePath =
     (case fs filePath of
        None \<Rightarrow> Inl (OpenError filePath)
      | Some data \<Rightarrow>
          (case ScanLines data of
             Inl err \<Rightarrow> Inl err
           | Inr tokens \<Rightarrow> Inr (collect_paths [] tokens)))"

text \<open>
  \<^verbatim>\<open>saveFilesToFile\<close> (lines 291-307): the loop appends each path and a
  newline to the buffered writer. The result is the returned error and the
  files afterwards.
\<close>

fun write_paths :: "string \<Rightarrow> string list \<Rightarrow> string" where
  "write_paths buf [] = buf"
| "write_paths buf (f # files) = write_paths (buf @ f @ [CHR 0x0A]) files"

definition saveFilesToFile ::
  "world \<Rightarrow> string \<Rightarrow> string list \<Rightarrow> error option \<times> filesystem" where
  "saveFilesToFile w outputFile files =
     (case Create w outputFile of
        Some err \<Rightarrow> (Some err, disk w)
      | None \<Rightarrow>
          let data = write_paths [] files
          in (case Write w outputFile data of
                Some (err, n) \<Rightarrow> (Some err, (disk w)(outputFile \<mapsto> take n data))
              | None \<Rightarrow> (None, (disk w)(outputFile \<mapsto> data))))"

subsection \<open>The command line and what the process does to the outside\<close>

record config =
  dir :: string
  retryFile :: string
  api :: string
  collection :: int
  workers :: int
  backoff :: int
  maxConns :: int
  apiKeyEnv :: string
  saveFailures :: string

text \<open>
  The lines of the log, by the statement that writes them, and the effects of
  a run in the order they happen: reading the retry file or listing the
  directory, a request handed to the HTTP client, a log line, a line on the
  standard output.
\<close>

datatype message =
    FatalError error
  | RetryFileError error
  | NothingToUpload
  | Uploading nat int
  | FAIL string error
  | SaveError error
  | SavedFailures nat string

datatype effect =
    ReadList string
  | ScanDir string
  | Sent request
  | Log message
  | Print string

subsection \<open>The worker pool of \<^verbatim>\<open>main\<close> (lines 203-250)\<close>

text \<open>
  The goroutines run interleaved; a schedule is the list of the steps taken,
  each naming who moves. The main goroutine spawns the workers (loop variable
  \<open>n\<close>), sends every file on the buffered channel \<^verbatim>\<open>jobs\<close>, closes it and
  waits on the wait group. A worker is at the receive of its \<^verbatim>\<open>range\<close> loop
  (\<open>Idle\<close>), holds a file it received (\<open>Busy\<close>), is about to append a failed
  file to \<^verbatim>\<open>failures\<close> under the mutex (\<open>Saving\<close>), or has left the loop and
  called \<^verbatim>\<open>wg.Done\<close> (\<open>Exited\<close>). The pacing sleep only delays a worker and
  is not a step. The counters are the two \<^verbatim>\<open>uint64\<close> of the source. The
  fields \<open>pulled\<close> and \<open>processed\<close> are history variables: every value
  received from the channel, in order, and every finished call of
  \<^verbatim>\<open>processFile\<close> with its result; no step reads them.
\<close>

datatype goroutine = Idle | Busy string | Saving string | Exited

datatype main_pc = Spawning nat | Sending "string list" | Waiting | Returned

record pool =
  pc :: main_pc
  jobs :: "string list"
  closed :: bool
  gor :: "goroutine list"
  ok :: "64 word"
  fail :: "64 word"
  failures :: "string list"
  trace :: "effect list"
  pulled :: "string list"
  processed :: "(string \<times> error option) list"

datatype event = MainStep | Recv nat | Proc nat exchange | Save nat | Exit nat

definition init :: pool where
  "init = \<lparr>pc = Spawning 0, jobs = [], closed = False, gor = [], ok = 0, fail = 0,
           failures = [], trace = [], pulled = [], processed = []\<rparr>"

text \<open>The argument that each worker passes for \<^verbatim>\<open>collectionID\<close> (lines 223-228).\<close>

definition collectionID :: "config \<Rightarrow> int option" where
  "collectionID cfg = (if collection cfg > 0 then Some (collection cfg) else None)"

text \<open>
  A send on \<^verbatim>\<open>jobs\<close> needs room in the buffer, whose capacity is the number of
  files; \<^verbatim>\<open>wg.Wait\<close> returns when every spawned worker has called \<^verbatim>\<open>wg.Done\<close>.
\<close>

definition main_step :: "config \<Rightarrow> string list \<Rightarrow> pool \<Rightarrow> pool option" where
  "main_step cfg files s =
     (case pc s of
        Spawning n \<Rightarrow>
          if int n < workers cfg then Some (s\<lparr>gor := gor s @ [Idle], pc := Spawning (n + 1)\<rparr>)
          else Some (s\<lparr>pc := Sending files\<rparr>)
      | Sending [] \<Rightarrow> Some (s\<lparr>closed := True, pc := Waiting\<rparr>)
      | Sending (f # rest) \<Rightarrow>
          if length (jobs s) < length files
          then Some (s\<lparr>jobs := jobs s @ [f], pc := Sending rest\<rparr>)
          else None
      | Waiting \<Rightarrow>
          if list_all (\<lambda>g. g = Exited) (gor s) then Some (s\<lparr>pc := Returned\<rparr>) else None
      | Returned \<Rightarrow> None)"

text \<open>
  A receive takes the head of the buffer, also after the channel was closed;
  the \<^verbatim>\<open>range\<close> loop ends when the channel is closed and empty.
\<close>

fun step :: "config \<Rightarrow> world \<Rightarrow> Transformer \<Rightarrow> string list \<Rightarrow> event \<Rightarrow> pool \<Rightarrow> pool option" where
  "step cfg w t files MainStep s = main_step cfg files s"
| "step cfg w t files (Recv i) s =
     (if i < length (gor s) \<and> gor s ! i = Idle
      then (case jobs s of
              [] \<Rightarrow> None
            | f # rest \<Rightarrow>
                Some (s\<lparr>jobs := rest, gor := (gor s)[i := Busy f], pulled := pulled s @ [f]\<rparr>))
      else None)"
| "step cfg w t files (Exit i) s =
     (if i < length (gor s) \<and> gor s ! i = Idle \<and> jobs s = [] \<and> closed s
      then Some (s\<lparr>gor := (gor s)[i := Exited]\<rparr>)
      else None)"
| "step cfg w t files (Proc i x) s =
     (if i < length (gor s)
      then (case gor s ! i of
              Busy f \<Rightarrow>
                (case processFile w t f (collectionID cfg) x of
                   (reqs, Some err) \<Rightarrow>
                     Some (s\<lparr>fail := fail s + 1,
                             trace := trace s @ map Sent reqs @ [Log (FAIL f err)],
                             gor := (gor s)[i := if saveFailures cfg \<noteq> [] then Saving f else Idle],
                             processed := processed s @ [(f, Some err)]\<rparr>)
                 | (reqs, None) \<Rightarrow>
                     Some (s\<lparr>ok := ok s + 1,
                             trace := trace s @ map Sent reqs,
                             gor := (gor s)[i := Idle],
                             processed := processed s @ [(f, None)]\<rparr>))
            | _ \<Rightarrow> None)
      else None)"
| "step cfg w t files (Save i) s =
     (if i < length (gor s)
      then (case gor s ! i of
              Saving f \<Rightarrow> Some (s\<lparr>failures := failures s @ [f], gor := (gor s)[i := Idle]\<rparr>)
            | _ \<Rightarrow> None)
      else None)"

fun exec ::
  "config \<Rightarrow> world \<Rightarrow> Transformer \<Rightarrow> string list \<Rightarrow> event list \<Rightarrow> pool \<Rightarrow> pool option" where
  "exec cfg w t files [] s = Some s"
| "exec cfg w t files (e # sched) s =
     (case step cfg w t files e s of
        None \<Rightarrow> None
      | Some s' \<Rightarrow> exec cfg w t files sched s')"

definition all_exited :: "config \<Rightarrow> pool \<Rightarrow> bool" where
  "all_exited cfg s \<longleftrightarrow>
     int (length (gor s)) = workers cfg \<and> list_all (\<lambda>g. g = Exited) (gor s)"

subsection \<open>\<^verbatim>\<open>main\<close> (lines 163-263)\<close>

text \<open>
  The result of a run: its effects in order, the exit status and the files
  afterwards. \<^verbatim>\<open>log.Fatal\<close> writes its line and exits with status 1. The
  schedule drives the worker pool; a schedule that does not lead the pool to
  the return of \<^verbatim>\<open>wg.Wait\<close> describes no run.
\<close>

record result =
  effects :: "effect list"
  status :: nat
  disk_after :: filesystem

definition summary :: "64 word \<Rightarrow> 64 word \<Rightarrow> string" where
  "summary k f =
     ''Done. Success: '' @ itoa (unat k) @ ''  Failure: '' @ itoa (unat f) @ [CHR 0x0A]"

definition main :: "config \<Rightarrow> world \<Rightarrow> event list \<Rightarrow> result option" where
  "main cfg w sched =
     (case NewTransformer w (api cfg) (apiKeyEnv cfg) (maxConns cfg) of
        Inl err \<Rightarrow> Some \<lparr>effects = [Log (FatalError err)], status = 1, disk_after = disk w\<rparr>
      | Inr transformer \<Rightarrow>
          let (read, listed) =
                (if retryFile cfg \<noteq> []
                 then (ReadList (retryFile cfg),
                       (case readFileList (disk w) (retryFile cfg) of
                          Inl err \<Rightarrow> Inl (RetryFileError err)
                        | Inr files \<Rightarrow> Inr files))
                 else (ScanDir (dir cfg),
                       (case Glob w (dir cfg) of
                          Inl err \<Rightarrow> Inl (FatalError err)
                        | Inr files \<Rightarrow> Inr files)))
          in (case listed of
                Inl fatal \<Rightarrow>
                  Some \<lparr>effects = [read, Log fatal], status = 1, disk_after = disk w\<rparr>
              | Inr files \<Rightarrow>
                  if length files = 0
                  then Some \<lparr>effects = [read, Log NothingToUpload], status = 0,
                              disk_after = disk w\<rparr>
                  else
                    (case exec cfg w transformer files sched init of
                       None \<Rightarrow> None
                     | Some s \<Rightarrow>
                         if pc s \<noteq> Returned then None
                         else
                           let (saved, fs) =
                                 (if saveFailures cfg \<noteq> [] \<and> length (failures s) > 0
                                  then (case saveFilesToFile w (saveFailures cfg) (failures s) of
                                          (Some err, fs) \<Rightarrow> ([Log (SaveError err)], fs)
                                        | (None, fs) \<Rightarrow>
                                            ([Log (SavedFailures (length (failures s))
                                                     (saveFailures cfg))], fs))
                                  else ([], disk w))
                           in Some \<lparr>effects =
                                      [read, Log (Uploading (length files) (workers cfg))] @
                                      trace s @ saved @ [Print (summary (ok s) (fail s))],
                                    status = 0, disk_after = fs\<rparr>)))"

subsection \<open>The calls that a schedule prescribes\<close>

text \<open>
  Read off a schedule alone, without running the pool: the number of its
  receive steps and the exchanges of its processing steps, in order.
\<close>

fun receives :: "event list \<Rightarrow> nat" where
  "receives [] = 0"
| "receives (Recv i # sched) = Suc (receives sched)"
| "receives (e # sched) = receives sched"

fun exchanges :: "event list \<Rightarrow> exchange list" where
  "exchanges [] = []"
| "exchanges (Proc i x # sched) = x # exchanges sched"
| "exchanges (e # sched) = exchanges sched"

text \<open>
  What a first-in first-out channel prescribes for a schedule: the receive
  steps take the files of the queue \<open>q\<close> one by one from its head, and a
  processing step of worker \<open>i\<close> works on the file that worker \<open>i\<close> received
  last (\<open>h\<close> says which file each worker holds). The result lists the files
  handed to \<^verbatim>\<open>processFile\<close>, each with the exchange of its step, in the order
  of the processing steps. The function looks at the schedule and the input
  list only.
\<close>

fun served :: "string list \<Rightarrow> (nat \<rightharpoonup> string) \<Rightarrow> event list \<Rightarrow> (string \<times> exchange) list" where
  "served q h [] = []"
| "served q h (Recv i # sched) =
     (case q of [] \<Rightarrow> served q h sched | f # q' \<Rightarrow> served q' (h(i \<mapsto> f)) sched)"
| "served q h (Proc i x # sched) =
     (case h i of None \<Rightarrow> served q h sched | Some f \<Rightarrow> (f, x) # served q (h(i := None)) sched)"
| "served q h (e # sched) = served q h sched"

text \<open>
  One call of \<^verbatim>\<open>processFile\<close> by a worker: what it returns, the entry it
  leaves in the history, and its effects, namely the requests it hands to the
  client and, if it fails, the log line \<^verbatim>\<open>FAIL\<close> with the file and the error.
\<close>

definition call ::
  "config \<Rightarrow> world \<Rightarrow> Transformer \<Rightarrow> string \<times> exchange \<Rightarrow> request list \<times> error option" where
  "call cfg w t c = processFile w t (fst c) (collectionID cfg) (snd c)"

definition call_result ::
  "config \<Rightarrow> world \<Rightarrow> Transformer \<Rightarrow> string \<times> exchange \<Rightarrow> string \<times> error option" where
  "call_result cfg w t c = (fst c, snd (call cfg w t c))"

definition call_effects ::
  "config \<Rightarrow> world \<Rightarrow> Transformer \<Rightarrow> string \<times> exchange \<Rightarrow> effect list" where
  "call_effects cfg w t c =
     (case call cfg w t c of
        (reqs, None) \<Rightarrow> map Sent reqs
      | (reqs, Some err) \<Rightarrow> map Sent reqs @ [Log (FAIL (fst c) err)])"

text \<open>The file that each worker of a state holds.\<close>

definition holds :: "pool \<Rightarrow> (nat \<rightharpoonup> string)" where
  "holds s = (\<lambda>i. if i < length (gor s)
                   then (case gor s ! i of Busy f \<Rightarrow> Some f | _ \<Rightarrow> None)
                   else None)"

subsection \<open>Invariant and measure of the worker pool\<close>

text \<open>
  The files that the main goroutine has not sent yet, the files that workers
  hold, and the finished calls by their result.
\<close>

definition pending :: "string list \<Rightarrow> pool \<Rightarrow> string list" where
  "pending files s = (case pc s of Spawning n \<Rightarrow> files | Sending rest \<Rightarrow> rest | _ \<Rightarrow> [])"

fun held :: "goroutine \<Rightarrow> string list" where
  "held (Busy f) = [f]"
| "held _ = []"

definition in_flight :: "pool \<Rightarrow> string list" where
  "in_flight s = concat (map held (gor s))"

definition succeeded :: "pool \<Rightarrow> (string \<times> error option) list" where
  "succeeded s = filter (\<lambda>p. snd p = None) (processed s)"

definition failed :: "pool \<Rightarrow> (string \<times> error option) list" where
  "failed s = filter (\<lambda>p. snd p \<noteq> None) (processed s)"

text \<open>
  What holds in every state of a run: the files pulled so far, the buffer and
  the files still to send make up the input list, in order; the files pulled
  are those processed and those held; each counter counts the finished calls
  with its result; the channel is closed once the main goroutine waits; all
  workers are spawned before the first send; a worker leaves its loop only
  when the channel is closed and empty; \<^verbatim>\<open>wg.Wait\<close> returns only when all
  workers have left.
\<close>

definition inv :: "config \<Rightarrow> string list \<Rightarrow> pool \<Rightarrow> bool" where
  "inv cfg files s \<longleftrightarrow>
     pulled s @ jobs s @ pending files s = files
   \<and> mset (map fst (processed s)) + mset (in_flight s) = mset (pulled s)
   \<and> unat (ok s) = length (succeeded s)
   \<and> unat (fail s) = length (failed s)
   \<and> (closed s \<longleftrightarrow> pc s = Waiting \<or> pc s = Returned)
   \<and> (case pc s of
         Spawning n \<Rightarrow> length (gor s) = n \<and> int n \<le> workers cfg
       | _ \<Rightarrow> int (length (gor s)) = workers cfg)
   \<and> (Exited \<in> set (gor s) \<longrightarrow> closed s \<and> jobs s = [])
   \<and> (pc s = Returned \<longrightarrow> list_all (\<lambda>g. g = Exited) (gor s))"

text \<open>A measure that every step decreases, so that every run is finite.\<close>

fun weight :: "goroutine \<Rightarrow> nat" where
  "weight Idle = 1"
| "weight (Busy f) = 3"
| "weight (Saving f) = 2"
| "weight Exited = 0"

definition rank :: "config \<Rightarrow> string list \<Rightarrow> pool \<Rightarrow> nat" where
  "rank cfg files s =
     (case pc s of
        Spawning n \<Rightarrow> 3 + 2 * nat (workers cfg - int n)
      | Sending rest \<Rightarrow> 2
      | Waiting \<Rightarrow> 1
      | Returned \<Rightarrow> 0)
     + 4 * length (pending files s) + 3 * length (jobs s) + sum_list (map weight (gor s))"

subsection \<open>Example inputs\<close>

text \<open>
  The flag defaults of \<^verbatim>\<open>main\<close> (lines 164-172), and a small environment for
  evaluating the model: the credential is set, two article files exist, the
  directory listing finds them, every library call succeeds.
\<close>

definition defaults :: config where
  "defaults =
     \<lparr>dir = ''.'', retryFile = [], api = ''https://api.example.com/v2'', collection = 0,
      workers = 10, backoff = 0, maxConns = 256, apiKeyEnv = ''OMNIPUB_API_KEY'',
      saveFailures = []\<rparr>"

definition world0 :: world where
  "world0 =
     \<lparr>environ = [''OMNIPUB_API_KEY'' \<mapsto> ''k''],
      disk = [''a.json'' \<mapsto> ''A'', ''b.json'' \<mapsto> ''B''],
      Glob = (\<lambda>d. Inr [''a.json'', ''b.json'']),
      Create = (\<lambda>p. None),
      Write = (\<lambda>p d. None),
      Decode = (\<lambda>d. Inr \<lparr>Title = d, Content = ''c'', Excerpt = [], Link = ''l'',
                            PublishDate = ''p'', UpdatedDate = ''u''\<rparr>),
      Marshal = (\<lambda>m. ''{}''),
      NewRequest = (\<lambda>u. None)\<rparr>"

text \<open>A path of 65536 bytes, one more than the line scanner accepts.\<close>

definition long_path :: string where
  "long_path = replicate 65536 (CHR ''a'')"

definition transformer0 :: Transformer where
  "transformer0 =
     \<lparr>apiBase = ''https://api.example.com/v2'',
      client = \<lparr>transport = \<lparr>MaxIdleConns = 256, MaxIdleConnsPerHost = 256,
                              MaxConnsPerHost = 256, IdleConnTimeout = 90\<rparr>,
                Timeout = 15\<rparr>,
      headers = [''Authorization'' \<mapsto> [''Bearer k'']]\<rparr>"

text \<open>
  A run of two workers over the two files: both are spawned, worker 0 receives
  the first file and worker 1 the second, the upload of the second fails with
  status 500 and its path is saved, the upload of the first succeeds, both
  workers leave, and \<^verbatim>\<open>wg.Wait\<close> returns.
\<close>

definition two_workers :: config where
  "two_workers = defaults\<lparr>workers := 2, saveFailures := ''failed.txt''\<rparr>"

definition schedule0 :: "event list" where
  "schedule0 =
     [MainStep, MainStep, MainStep, MainStep, Recv 0, MainStep, Recv 1,
      Proc 1 \<lparr>Boundary = ''x'', Reply = Response 500 ''oops''\<rparr>, MainStep,
      Proc 0 \<lparr>Boundary = ''y'', Reply = Response 200 []\<rparr>, Save 1, Exit 0, Exit 1, MainStep]"

section \<open>Properties of the renderer\<close>

subsection \<open>The script-tag replacer\<close>

lemma cleanHTML_Nil: "cleanHTML [] = []"
  by (simp add: cleanHTML_def)

lemma cleanHTML_Cons:
  "cleanHTML (c # cs) =
     (if prefix ''<script'' (c # cs) then ''&lt;script'' @ cleanHTML (drop 6 cs)
      else if prefix ''</script>'' (c # cs) then ''&lt;/script&gt;'' @ cleanHTML (drop 8 cs)
      else c # cleanHTML cs)"
  by (simp add: cleanHTML_def eval_nat_numeral)

lemma cleanHTML_other: "c \<noteq> CHR ''<'' \<Longrightarrow> cleanHTML (c # cs) = c # cleanHTML cs"
  by (simp add: cleanHTML_Cons)

lemma cleanHTML_open: "cleanHTML (''<script'' @ v) = ''&lt;script'' @ cleanHTML v"
  by (simp add: cleanHTML_Cons)

lemma cleanHTML_close: "cleanHTML (''</script>'' @ v) = ''&lt;/script&gt;'' @ cleanHTML v"
  by (simp add: cleanHTML_Cons)

text \<open>
  A pattern that matches at a position of \<open>u\<close> inside \<open>u @ v\<close> lies inside \<open>u\<close>
  when the first byte of \<open>v\<close> does not occur in the pattern's tail.
\<close>

lemma prefix_no_cross:
  assumes "prefix p (u @ v)" and "u \<noteq> []" and "v = [] \<or> hd v \<notin> set (tl p)"
  shows "prefix p u"
proof -
  from assms(1) consider "prefix p u" | q where "p = u @ q" "prefix q v"
    by (auto simp: prefix_append)
  then show ?thesis
  proof cases
    case 1
    then show ?thesis .
  next
    case 2
    show ?thesis
    proof (cases q)
      case Nil
      with 2 show ?thesis by simp
    next
      case (Cons a q')
      with 2 have "v \<noteq> []" "hd v = a" by (auto simp: prefix_def)
      moreover from 2 Cons assms(2) have "a \<in> set (tl p)" by (cases u) auto
      ultimately show ?thesis using assms(3) by simp
    qed
  qed
qed

lemma cleanHTML_append:
  assumes "v = [] \<or> hd v = CHR ''<''"
  shows "cleanHTML (u @ v) = cleanHTML u @ cleanHTML v"
proof (induction u rule: length_induct)
  case (1 u)
  show ?case
  proof (cases u)
    case Nil
    then show ?thesis by (simp add: cleanHTML_Nil)
  next
    case (Cons c cs)
    have cross: "prefix p (u @ v) \<longleftrightarrow> prefix p u"
      if "CHR ''<'' \<notin> set (tl p)" for p
    proof
      assume "prefix p (u @ v)"
      moreover from Cons have "u \<noteq> []" by simp
      moreover from assms that have "v = [] \<or> hd v \<notin> set (tl p)" by auto
      ultimately show "prefix p u" by (rule prefix_no_cross)
    next
      assume "prefix p u"
      then show "prefix p (u @ v)" by (rule prefix_prefix)
    qed
    have o: "prefix ''<script'' (u @ v) \<longleftrightarrow> prefix ''<script'' u"
      by (rule cross) simp
    have c: "prefix ''</script>'' (u @ v) \<longleftrightarrow> prefix ''</script>'' u"
      by (rule cross) simp
    show ?thesis
    proof (cases "prefix ''<script'' u")
      case True
      then obtain r where r: "u = ''<script'' @ r" by (auto simp: prefix_def)
      then have "length r < length u" by simp
      with 1 have "cleanHTML (r @ v) = cleanHTML r @ cleanHTML v" by blast
      with r show ?thesis using cleanHTML_open[of "r @ v"] cleanHTML_open[of r] by simp
    next
      case no: False
      show ?thesis
      proof (cases "prefix ''</script>'' u")
        case True
        then obtain r where r: "u = ''</script>'' @ r" by (auto simp: prefix_def)
        then have "length r < length u" by simp
        with 1 have "cleanHTML (r @ v) = cleanHTML r @ cleanHTML v" by blast
        with r show ?thesis using cleanHTML_close[of "r @ v"] cleanHTML_close[of r] by simp
      next
        case nc: False
        from Cons have "length cs < length u" by simp
        with 1 have ih: "cleanHTML (cs @ v) = cleanHTML cs @ cleanHTML v" by blast
        from no o have n1: "\<not> prefix ''<script'' (u @ v)" by blast
        from nc c have n2: "\<not> prefix ''</script>'' (u @ v)" by blast
        have "cleanHTML (u @ v) = c # cleanHTML (cs @ v)"
          using n1 n2 unfolding Cons append_Cons
          by (subst cleanHTML_Cons) (simp only: if_False)
        moreover have "cleanHTML u = c # cleanHTML cs"
          using no nc unfolding Cons
          by (subst cleanHTML_Cons) (simp only: if_False)
        ultimately show ?thesis using ih by simp
      qed
    qed
  qed
qed

lemma cleanHTML_id:
  "\<not> sublist ''<script'' s \<Longrightarrow> \<not> sublist ''</script>'' s \<Longrightarrow> cleanHTML s = s"
proof (induction s)
  case Nil
  then show ?case by (simp add: cleanHTML_Nil)
next
  case (Cons c cs)
  from Cons.prems
  have np: "\<not> prefix ''<script'' (c # cs)" "\<not> prefix ''</script>'' (c # cs)"
    and ns: "\<not> sublist ''<script'' cs" "\<not> sublist ''</script>'' cs"
    by (simp_all add: sublist_Cons_right)
  from ns Cons.IH have "cleanHTML cs = cs" by blast
  with np show ?case by (subst cleanHTML_Cons) (simp only: if_False)
qed

lemma cleanHTML_hd_lt:
  "\<exists>x r. cleanHTML (CHR ''<'' # cs) = x # r \<and> (x = CHR ''&'' \<or> x = CHR ''<'')"
  by (simp add: cleanHTML_Cons)

lemma prefix_cleanHTML:
  "CHR ''<'' \<notin> set q \<Longrightarrow> CHR ''&'' \<notin> set q \<Longrightarrow> prefix q (cleanHTML s) \<longleftrightarrow> prefix q s"
proof (induction q arbitrary: s)
  case Nil
  then show ?case by simp
next
  case (Cons a q)
  show ?case
  proof (cases s)
    case Nil
    then show ?thesis by (simp add: cleanHTML_Nil)
  next
    case s: (Cons c cs)
    show ?thesis
    proof (cases "c = CHR ''<''")
      case True
      with cleanHTML_hd_lt[of cs] s Cons.prems show ?thesis by auto
    next
      case False
      with s Cons show ?thesis by (simp add: cleanHTML_other)
    qed
  qed
qed

lemma no_open_prefix: "\<not> prefix ''<script'' (cleanHTML s)"
proof (cases s)
  case Nil
  then show ?thesis by (simp add: cleanHTML_Nil)
next
  case (Cons c cs)
  have "prefix ''script'' (cleanHTML cs) \<longleftrightarrow> prefix ''script'' cs"
    by (rule prefix_cleanHTML) simp_all
  with Cons show ?thesis by (simp add: cleanHTML_Cons)
qed

lemma no_close_prefix: "\<not> prefix ''</script>'' (cleanHTML s)"
proof (cases s)
  case Nil
  then show ?thesis by (simp add: cleanHTML_Nil)
next
  case (Cons c cs)
  have "prefix ''/script>'' (cleanHTML cs) \<longleftrightarrow> prefix ''/script>'' cs"
    by (rule prefix_cleanHTML) simp_all
  with Cons show ?thesis by (simp add: cleanHTML_Cons)
qed

lemma cleanHTML_cases:
  "cleanHTML (c # cs) = ''&lt;script'' @ cleanHTML (drop 6 cs) \<or>
   cleanHTML (c # cs) = ''&lt;/script&gt;'' @ cleanHTML (drop 8 cs) \<or>
   cleanHTML (c # cs) = c # cleanHTML cs"
  by (simp add: cleanHTML_Cons)

lemma sublist_skip:
  "CHR ''<'' \<notin> set w \<Longrightarrow> sublist (CHR ''<'' # p) (w @ r) \<Longrightarrow> sublist (CHR ''<'' # p) r"
  by (induction w) (auto simp: sublist_Cons_right)

lemma no_pattern_sublist:
  assumes np: "\<And>s. \<not> prefix (CHR ''<'' # p) (cleanHTML s)"
  shows "\<not> sublist (CHR ''<'' # p) (cleanHTML s)"
proof (induction s rule: length_induct)
  case (1 s)
  show ?case
  proof (cases s)
    case Nil
    then show ?thesis by (simp add: cleanHTML_Nil)
  next
    case (Cons c cs)
    have a: "\<not> sublist (CHR ''<'' # p) (cleanHTML (drop n cs))" for n
      using 1 Cons by simp
    from a[of 0] have b: "\<not> sublist (CHR ''<'' # p) (cleanHTML cs)" by simp
    consider "cleanHTML (c # cs) = ''&lt;script'' @ cleanHTML (drop 6 cs)"
      | "cleanHTML (c # cs) = ''&lt;/script&gt;'' @ cleanHTML (drop 8 cs)"
      | "cleanHTML (c # cs) = c # cleanHTML cs"
      using cleanHTML_cases by blast
    then show ?thesis
    proof cases
      case 1
      have "CHR ''<'' \<notin> set ''&lt;script''" by simp
      with a[of 6] sublist_skip show ?thesis unfolding Cons 1 by blast
    next
      case 2
      have "CHR ''<'' \<notin> set ''&lt;/script&gt;''" by simp
      with a[of 8] sublist_skip show ?thesis unfolding Cons 2 by blast
    next
      case 3
      from np[of "c # cs"] have "\<not> prefix (CHR ''<'' # p) (c # cleanHTML cs)"
        unfolding 3 .
      with b show ?thesis unfolding Cons 3 by (subst sublist_Cons_right) blast
    qed
  qed
qed

lemma no_open_sublist: "\<not> sublist ''<script'' (cleanHTML s)"
  by (rule no_pattern_sublist) (rule no_open_prefix)

lemma no_close_sublist: "\<not> sublist ''</script>'' (cleanHTML s)"
  by (rule no_pattern_sublist) (rule no_close_prefix)

lemma cleanHTML_bold: "cleanHTML (''<b>bold</b>'' @ v) = ''<b>bold</b>'' @ cleanHTML v"
  by (simp add: cleanHTML_Cons)

lemma cleanHTML_at_open:
  "cleanHTML (u @ ''<script'' @ v) = cleanHTML u @ ''&lt;script'' @ cleanHTML v"
proof -
  have "cleanHTML (u @ (''<script'' @ v)) = cleanHTML u @ cleanHTML (''<script'' @ v)"
    by (rule cleanHTML_append) simp
  then show ?thesis by (simp only: cleanHTML_open)
qed

lemma cleanHTML_at_close:
  "cleanHTML (u @ ''</script>'' @ v) = cleanHTML u @ ''&lt;/script&gt;'' @ cleanHTML v"
proof -
  have "cleanHTML (u @ (''</script>'' @ v)) = cleanHTML u @ cleanHTML (''</script>'' @ v)"
    by (rule cleanHTML_append) simp
  then show ?thesis by (simp only: cleanHTML_close)
qed

lemma cleanHTML_at_bold:
  "cleanHTML (u @ ''<b>bold</b>'' @ v) = cleanHTML u @ ''<b>bold</b>'' @ cleanHTML v"
proof -
  have "cleanHTML (u @ (''<b>bold</b>'' @ v)) = cleanHTML u @ cleanHTML (''<b>bold</b>'' @ v)"
    by (rule cleanHTML_append) simp
  then show ?thesis by (simp only: cleanHTML_bold)
qed

lemma cleanHTML_at_alert:
  "cleanHTML (u @ ''<script>alert(1)</script>'' @ v) =
     cleanHTML u @ ''&lt;script>alert(1)&lt;/script&gt;'' @ cleanHTML v"
proof -
  have "cleanHTML (u @ (''<script>alert(1)</script>'' @ v)) =
          cleanHTML u @ cleanHTML (''<script>alert(1)</script>'' @ v)"
    by (rule cleanHTML_append) simp
  moreover have "cleanHTML (''<script>alert(1)</script>'' @ v) =
          ''&lt;script>alert(1)&lt;/script&gt;'' @ cleanHTML v"
    by (simp add: cleanHTML_Cons)
  ultimately show ?thesis by simp
qed

text \<open>
  Claim C2. \<^verbatim>\<open>cleanHTML\<close> replaces every occurrence of \<^verbatim>\<open><script\<close> by
  \<^verbatim>\<open>&lt;script\<close> and every occurrence of \<^verbatim>\<open></script>\<close> by \<^verbatim>\<open>&lt;/script&gt;\<close>,
  wherever it stands in the input (the first two equations, for any text \<open>u\<close>
  before and \<open>v\<close> behind the occurrence), and copies an input without
  either pattern unchanged; the four facts together determine the function.
  The comparison is case-sensitive: the upper-case tag is copied. No output
  contains \<^verbatim>\<open><script\<close> or \<^verbatim>\<open></script>\<close>. Content containing
  \<^verbatim>\<open><script>alert(1)</script>\<close> comes out with the escaped form in its place,
  and \<^verbatim>\<open><b>bold</b>\<close> passes through as it is.
\<close>

theorem cleanHTML_neutralises_script_tags:
  "cleanHTML [] = []
   \<and> cleanHTML (u @ ''<script'' @ v) = cleanHTML u @ ''&lt;script'' @ cleanHTML v
   \<and> cleanHTML (u @ ''</script>'' @ v) = cleanHTML u @ ''&lt;/script&gt;'' @ cleanHTML v
   \<and> (\<not> sublist ''<script'' s \<and> \<not> sublist ''</script>'' s \<longrightarrow> cleanHTML s = s)
   \<and> cleanHTML ''<SCRIPT>x</SCRIPT>'' = ''<SCRIPT>x</SCRIPT>''
   \<and> \<not> sublist ''<script'' (cleanHTML s)
   \<and> \<not> sublist ''</script>'' (cleanHTML s)
   \<and> cleanHTML (u @ ''<script>alert(1)</script>'' @ v) =
       cleanHTML u @ ''&lt;script>alert(1)&lt;/script&gt;'' @ cleanHTML v
   \<and> cleanHTML (u @ ''<b>bold</b>'' @ v) = cleanHTML u @ ''<b>bold</b>'' @ cleanHTML v"
proof -
  have "cleanHTML ''<SCRIPT>x</SCRIPT>'' = ''<SCRIPT>x</SCRIPT>''"
    by (simp add: cleanHTML_Cons cleanHTML_Nil)
  then show ?thesis
    using cleanHTML_Nil cleanHTML_at_open[of u v] cleanHTML_at_close[of u v]
      cleanHTML_id[of s] no_open_sublist[of s] no_close_sublist[of s]
      cleanHTML_at_alert[of u v] cleanHTML_at_bold[of u v]
    by blast
qed

theorem cleanHTML_neutralises_script_tags_witness:
  "\<not> sublist ''<script'' ''a <b>c</b>'' \<and> \<not> sublist ''</script>'' ''a <b>c</b>''
   \<and> cleanHTML ''a <b>c</b>'' = ''a <b>c</b>''
   \<and> cleanHTML (''<p>'' @ ''<script'' @ '' x>'') = ''<p>&lt;script x>''"
proof -
  have h: "\<not> sublist ''<script'' ''a <b>c</b>''" "\<not> sublist ''</script>'' ''a <b>c</b>''"
    by (simp_all add: sublist_code)
  have c: "cleanHTML ''<p>'' = ''<p>''" "cleanHTML '' x>'' = '' x>''"
    by (simp_all add: cleanHTML_Cons cleanHTML_Nil)
  from cleanHTML_neutralises_script_tags[of "''<p>''" "'' x>''" "''a <b>c</b>''"] h c
  show ?thesis by simp
qed

subsection \<open>HTML escaping\<close>

lemma EscapeString_Nil: "EscapeString [] = []"
  by (simp add: EscapeString_def)

lemma EscapeString_Cons:
  "EscapeString (c # cs) =
     (if c = CHR ''&'' then ''&amp;''
      else if c = CHR 0x27 then ''&#39;''
      else if c = CHR ''<'' then ''&lt;''
      else if c = CHR ''>'' then ''&gt;''
      else if c = CHR 0x22 then ''&#34;''
      else [c]) @ EscapeString cs"
  by (simp add: EscapeString_def htmlEscaper_def)

lemma EscapeString_append: "EscapeString (x @ y) = EscapeString x @ EscapeString y"
  by (induction x) (simp_all add: EscapeString_Nil EscapeString_Cons)

lemma EscapeString_no_markup:
  "set (EscapeString t) \<inter> {CHR ''<'', CHR ''>'', CHR 0x22, CHR 0x27} = {}"
  by (induction t) (simp_all add: EscapeString_Nil EscapeString_Cons)

subsection \<open>The rendered document\<close>

lemma buildHTML_eq:
  \<open>buildHTML a =
     ''<h1>'' @ EscapeString (Title a) @ ''</h1>'' @ [CHR 0x0A] @
     (if Excerpt a = [] then []
      else ''<p>'' @ EscapeString (Excerpt a) @ ''</p>'' @ [CHR 0x0A]) @
     ''<div>'' @ [CHR 0x0A] @ cleanHTML (Content a) @ [CHR 0x0A] @ ''</div>'' @ [CHR 0x0A] @
     ''<h3>Metadata</h3>'' @ [CHR 0x0A] @
     ''<p>Source Url: <a href="'' @ Link a @ ''">'' @ Link a @ ''</a></p>'' @
     ''<p>Published Date: '' @ PublishDate a @ ''</p>'' @
     ''<p>Updated Date: '' @ UpdatedDate a @ ''</p>''\<close>
  by (simp add: buildHTML_def WriteString_def Let_def)

text \<open>
  Claim C7. The rendered HTML is, in this order: the escaped title as an
  \<^verbatim>\<open>h1\<close> heading; a paragraph with the escaped excerpt, present exactly when
  the excerpt is not empty; the cleaned content inside a \<^verbatim>\<open>div\<close>; the
  metadata block with the link as a hyperlink whose text is the link itself,
  then the publish date and the updated date, both as they are in the record.
  Escaping is that of \<^verbatim>\<open>html.EscapeString\<close>: it works byte by byte, rewrites
  the five characters \<^verbatim>\<open>& ' < > "\<close> and leaves no \<^verbatim>\<open>< > " '\<close> in its result.
\<close>

theorem buildHTML_layout:
  \<open>buildHTML a =
     ''<h1>'' @ EscapeString (Title a) @ ''</h1>'' @ [CHR 0x0A] @
     (if Excerpt a = [] then []
      else ''<p>'' @ EscapeString (Excerpt a) @ ''</p>'' @ [CHR 0x0A]) @
     ''<div>'' @ [CHR 0x0A] @ cleanHTML (Content a) @ [CHR 0x0A] @ ''</div>'' @ [CHR 0x0A] @
     ''<h3>Metadata</h3>'' @ [CHR 0x0A] @
     ''<p>Source Url: <a href="'' @ Link a @ ''">'' @ Link a @ ''</a></p>'' @
     ''<p>Published Date: '' @ PublishDate a @ ''</p>'' @
     ''<p>Updated Date: '' @ UpdatedDate a @ ''</p>''
   \<and> EscapeString (x @ y) = EscapeString x @ EscapeString y
   \<and> EscapeString [c] =
        (if c = CHR ''&'' then ''&amp;''
         else if c = CHR 0x27 then ''&#39;''
         else if c = CHR ''<'' then ''&lt;''
         else if c = CHR ''>'' then ''&gt;''
         else if c = CHR 0x22 then ''&#34;''
         else [c])
   \<and> set (EscapeString t) \<inter> {CHR ''<'', CHR ''>'', CHR 0x22, CHR 0x27} = {}\<close>
  using buildHTML_eq[of a] EscapeString_append[of x y] EscapeString_Cons[of c "[]"]
    EscapeString_no_markup[of t]
  by (simp only: EscapeString_Nil append_Nil2 simp_thms)

theorem buildHTML_layout_witness:
  \<open>buildHTML \<lparr>Title = ''A<B'', Content = ''<i>x</i><script>'', Excerpt = ''1 & 2'',
      Link = ''http://h/p'', PublishDate = ''<2024>'', UpdatedDate = ''2025''\<rparr> =
     ''<h1>A&lt;B</h1>'' @ [CHR 0x0A] @ ''<p>1 &amp; 2</p>'' @ [CHR 0x0A] @
     ''<div>'' @ [CHR 0x0A] @ ''<i>x</i>&lt;script>'' @ [CHR 0x0A] @ ''</div>'' @ [CHR 0x0A] @
     ''<h3>Metadata</h3>'' @ [CHR 0x0A] @
     ''<p>Source Url: <a href="http://h/p">http://h/p</a></p>'' @
     ''<p>Published Date: <2024></p><p>Updated Date: 2025</p>''
   \<and> buildHTML \<lparr>Title = ''T'', Content = ''c'', Excerpt = [],
      Link = ''l'', PublishDate = ''p'', UpdatedDate = ''u''\<rparr> =
     ''<h1>T</h1>'' @ [CHR 0x0A] @ ''<div>'' @ [CHR 0x0A] @ ''c'' @ [CHR 0x0A] @ ''</div>'' @
     [CHR 0x0A] @ ''<h3>Metadata</h3>'' @ [CHR 0x0A] @
     ''<p>Source Url: <a href="l">l</a></p><p>Published Date: p</p><p>Updated Date: u</p>''\<close>
proof -
  have e: "EscapeString ''A<B'' = ''A&lt;B''" "EscapeString ''1 & 2'' = ''1 &amp; 2''"
    "EscapeString ''T'' = ''T''"
    by (simp_all add: EscapeString_Cons EscapeString_Nil)
  have c: "cleanHTML ''<i>x</i><script>'' = ''<i>x</i>&lt;script>''" "cleanHTML ''c'' = ''c''"
    by (simp_all add: cleanHTML_Cons cleanHTML_Nil)
  from buildHTML_layout[of "\<lparr>Title = ''A<B'', Content = ''<i>x</i><script>'',
      Excerpt = ''1 & 2'', Link = ''http://h/p'', PublishDate = ''<2024>'',
      UpdatedDate = ''2025''\<rparr>"]
    buildHTML_layout[of "\<lparr>Title = ''T'', Content = ''c'', Excerpt = [],
      Link = ''l'', PublishDate = ''p'', UpdatedDate = ''u''\<rparr>"]
  show ?thesis by (simp add: e c)
qed

text \<open>
  Claim C10. The link of the record is inserted as it is, with no HTML or URL
  escaping, as the value of \<^verbatim>\<open>href\<close> and as the text of the hyperlink: for a
  fixed rest of the record the document is one fixed text around the two
  copies of the link, whatever the link is. A link with a double quote and
  angle brackets stands literally in the attribute and in the element body.
\<close>

theorem buildHTML_link_verbatim:
  \<open>(\<exists>pre post. \<forall>l.
       buildHTML (a\<lparr>Link := l\<rparr>) = pre @ ''<a href="'' @ l @ ''">'' @ l @ ''</a>'' @ post)
   \<and> sublist (''<a href="'' @ Link a @ ''">'' @ Link a @ ''</a>'') (buildHTML a)
   \<and> sublist ''<a href="x"><i>">x"><i></a>''
        (buildHTML \<lparr>Title = ''T'', Content = ''c'', Excerpt = [],
           Link = ''x"><i>'', PublishDate = ''p'', UpdatedDate = ''u''\<rparr>)\<close>
proof -
  let ?pre = "''<h1>'' @ EscapeString (Title a) @ ''</h1>'' @ [CHR 0x0A] @
     (if Excerpt a = [] then []
      else ''<p>'' @ EscapeString (Excerpt a) @ ''</p>'' @ [CHR 0x0A]) @
     ''<div>'' @ [CHR 0x0A] @ cleanHTML (Content a) @ [CHR 0x0A] @ ''</div>'' @ [CHR 0x0A] @
     ''<h3>Metadata</h3>'' @ [CHR 0x0A] @ ''<p>Source Url: ''"
  let ?post = "''</p>'' @ ''<p>Published Date: '' @ PublishDate a @ ''</p>'' @
     ''<p>Updated Date: '' @ UpdatedDate a @ ''</p>''"
  have shape: \<open>buildHTML (a\<lparr>Link := l\<rparr>) =
      ?pre @ (''<a href="'' @ l @ ''">'' @ l @ ''</a>'') @ ?post\<close> for l
    by (simp add: buildHTML_eq)
  then have 1: \<open>\<exists>pre post. \<forall>l.
       buildHTML (a\<lparr>Link := l\<rparr>) = pre @ ''<a href="'' @ l @ ''">'' @ l @ ''</a>'' @ post\<close>
    by (intro exI[of _ ?pre] exI[of _ ?post]) simp
  from shape[of "Link a"]
  have \<open>buildHTML a = ?pre @ (''<a href="'' @ Link a @ ''">'' @ Link a @ ''</a>'') @ ?post\<close>
    by simp
  then have 2: \<open>sublist (''<a href="'' @ Link a @ ''">'' @ Link a @ ''</a>'') (buildHTML a)\<close>
    by (simp only: sublist_appendI)
  let ?b = \<open>\<lparr>Title = ''T'', Content = ''c'', Excerpt = [],
           Link = ''x"><i>'', PublishDate = ''p'', UpdatedDate = ''u''\<rparr>\<close>
  have \<open>buildHTML ?b =
      (''<h1>T</h1>'' @ [CHR 0x0A] @ ''<div>'' @ [CHR 0x0A] @ ''c'' @ [CHR 0x0A] @ ''</div>'' @
       [CHR 0x0A] @ ''<h3>Metadata</h3>'' @ [CHR 0x0A] @ ''<p>Source Url: '') @
      ''<a href="x"><i>">x"><i></a>'' @ ''</p><p>Published Date: p</p><p>Updated Date: u</p>''\<close>
    by (simp add: buildHTML_eq EscapeString_Cons EscapeString_Nil cleanHTML_Cons cleanHTML_Nil)
  then have 3: \<open>sublist ''<a href="x"><i>">x"><i></a>'' (buildHTML ?b)\<close>
    by (simp only: sublist_appendI)
  from 1 2 3 show ?thesis by blast
qed

text \<open>
  Claim C8. The metadata mapping has exactly the three keys \<^verbatim>\<open>title\<close>,
  \<^verbatim>\<open>creation_date\<close> and \<^verbatim>\<open>source_url\<close>, bound to the title, the publish date
  and the link of the record.
\<close>

theorem buildMetadata_three_entries:
  "dom (buildMetadata a) = {''title'', ''creation_date'', ''source_url''}
   \<and> card (dom (buildMetadata a)) = 3
   \<and> buildMetadata a ''title'' = Some (Title a)
   \<and> buildMetadata a ''creation_date'' = Some (PublishDate a)
   \<and> buildMetadata a ''source_url'' = Some (Link a)"
  by (auto simp: buildMetadata_def)

section \<open>Properties of the submitter\<close>

subsection \<open>Trimming\<close>

lemma strip_runes_suffix: "suffix (strip_runes rs s) s"
proof (induction rs s rule: strip_runes.induct)
  case (1 rs)
  then show ?case by simp
next
  case (2 rs c cs)
  show ?case
  proof (cases "find (\<lambda>r. prefix r (c # cs)) rs")
    case None
    then show ?thesis by simp
  next
    case (Some r)
    with 2 have "suffix (strip_runes rs (drop (length r - 1) cs)) (drop (length r - 1) cs)"
      by simp
    also have "suffix (drop (length r - 1) cs) (c # cs)"
      by (simp add: suffix_ConsI suffix_drop)
    finally show ?thesis using Some by simp
  qed
qed

lemma strip_runes_no_prefix:
  "[] \<notin> set rs \<Longrightarrow> r \<in> set rs \<Longrightarrow> \<not> prefix r (strip_runes rs s)"
proof (induction rs s rule: strip_runes.induct)
  case (1 rs)
  then show ?case by auto
next
  case (2 rs c cs)
  show ?case
  proof (cases "find (\<lambda>r. prefix r (c # cs)) rs")
    case None
    then have "\<not> prefix r (c # cs)" using 2(3) by (simp add: find_None_iff)
    with None show ?thesis by simp
  next
    case (Some r')
    with 2 show ?thesis by simp
  qed
qed

lemma strip_runes_id: "\<forall>r \<in> set rs. \<not> prefix r s \<Longrightarrow> strip_runes rs s = s"
proof (cases s)
  case Nil
  then show ?thesis by simp
next
  case (Cons c cs)
  assume "\<forall>r \<in> set rs. \<not> prefix r s"
  with Cons have "find (\<lambda>r. prefix r (c # cs)) rs = None"
    by (simp add: find_None_iff)
  with Cons show ?thesis by simp
qed

lemma White_Space_nonempty: "[] \<notin> set White_Space"
  by (simp add: White_Space_def)

lemma leading_space_iff: "leading_space s \<longleftrightarrow> (\<exists>r \<in> set White_Space. prefix r s)"
  by (simp add: leading_space_def list_ex_iff)

lemma trailing_space_iff: "trailing_space s \<longleftrightarrow> (\<exists>r \<in> set White_Space. suffix r s)"
  by (simp add: trailing_space_def list_ex_iff)

lemma TrimLeftSpace_suffix: "suffix (TrimLeftSpace s) s"
  by (simp add: TrimLeftSpace_def strip_runes_suffix)

lemma TrimLeftSpace_clean: "\<not> leading_space (TrimLeftSpace s)"
  using strip_runes_no_prefix[OF White_Space_nonempty]
  by (auto simp: leading_space_iff TrimLeftSpace_def)

lemma TrimRightSpace_prefix: "prefix (TrimRightSpace s) s"
  using strip_runes_suffix[of "map rev White_Space" "rev s"]
  by (simp add: TrimRightSpace_def suffix_to_prefix)

lemma TrimRightSpace_clean: "\<not> trailing_space (TrimRightSpace s)"
proof
  assume "trailing_space (TrimRightSpace s)"
  then obtain r where r: "r \<in> set White_Space" "suffix r (TrimRightSpace s)"
    by (auto simp: trailing_space_iff)
  then have "prefix (rev r) (strip_runes (map rev White_Space) (rev s))"
    by (simp add: TrimRightSpace_def suffix_to_prefix)
  moreover have "[] \<notin> set (map rev White_Space)"
    using White_Space_nonempty by auto
  moreover from r have "rev r \<in> set (map rev White_Space)" by simp
  ultimately show False using strip_runes_no_prefix by blast
qed

lemma TrimLeftSpace_id: "\<not> leading_space s \<Longrightarrow> TrimLeftSpace s = s"
  by (simp add: leading_space_iff TrimLeftSpace_def strip_runes_id)

lemma TrimRightSpace_id: "\<not> trailing_space s \<Longrightarrow> TrimRightSpace s = s"
proof -
  assume "\<not> trailing_space s"
  then have "\<forall>r \<in> set (map rev White_Space). \<not> prefix r (rev s)"
    by (auto simp: trailing_space_iff suffix_to_prefix)
  then show ?thesis by (simp add: TrimRightSpace_def strip_runes_id)
qed

lemma TrimSpace_id: "\<not> leading_space s \<Longrightarrow> \<not> trailing_space s \<Longrightarrow> TrimSpace s = s"
  by (simp add: TrimSpace_def TrimLeftSpace_id TrimRightSpace_id)

lemma TrimSpace_sublist: "sublist (TrimSpace s) s"
proof -
  have "sublist (TrimSpace s) (TrimLeftSpace s)"
    unfolding TrimSpace_def by (rule prefix_imp_sublist[OF TrimRightSpace_prefix])
  moreover have "sublist (TrimLeftSpace s) s"
    by (rule suffix_imp_sublist[OF TrimLeftSpace_suffix])
  ultimately show ?thesis by (rule sublist_order.order_trans)
qed

lemma TrimSpace_clean: "\<not> leading_space (TrimSpace s) \<and> \<not> trailing_space (TrimSpace s)"
proof
  show "\<not> leading_space (TrimSpace s)"
  proof
    assume "leading_space (TrimSpace s)"
    then obtain r where "r \<in> set White_Space" "prefix r (TrimSpace s)"
      by (auto simp: leading_space_iff)
    moreover have "prefix (TrimSpace s) (TrimLeftSpace s)"
      unfolding TrimSpace_def by (rule TrimRightSpace_prefix)
    ultimately have "leading_space (TrimLeftSpace s)"
      by (auto simp: leading_space_iff intro: prefix_order.trans)
    then show False using TrimLeftSpace_clean by blast
  qed
  show "\<not> trailing_space (TrimSpace s)"
    unfolding TrimSpace_def by (rule TrimRightSpace_clean)
qed

lemma TrimSpace_length: "length (TrimSpace (take n s)) \<le> n"
proof -
  have "length (TrimSpace (take n s)) \<le> length (take n s)"
    by (rule sublist_length_le[OF TrimSpace_sublist])
  then show ?thesis by simp
qed

subsection \<open>Outcome classification\<close>

text \<open>
  Claim C3. When the request could be built, it is handed to the client, and
  the outcome follows what the client returns. For a response, \<^verbatim>\<open>postItem\<close>
  returns \<^verbatim>\<open>nil\<close> exactly when the status code is at least 200 and below 300;
  for any other status the error text is \<^verbatim>\<open>http\<close>, the status code in
  decimal and the first 4096 bytes of the body trimmed of surrounding white
  space, so the detail is a part of the body of at most 4096 bytes. For a
  transport error (connection failure, timeout, cancellation) the error of the
  client is returned.
\<close>

theorem postItem_classification:
  assumes "NewRequest w (apiBase t @ ''/omnipub'') = None"
  shows "(Reply x = Response code body \<longrightarrow>
            (snd (postItem w t h m c x) = None \<longleftrightarrow> 200 \<le> code \<and> code < 300)
          \<and> (\<not> (200 \<le> code \<and> code < 300) \<longrightarrow>
               snd (postItem w t h m c x) =
                 Some (Errorf (''http '' @ fmt_d code @ '' '' @ TrimSpace (take 4096 body)))
               \<and> length (TrimSpace (take 4096 body)) \<le> 4096
               \<and> sublist (TrimSpace (take 4096 body)) body
               \<and> \<not> leading_space (TrimSpace (take 4096 body))
               \<and> \<not> trailing_space (TrimSpace (take 4096 body))))
       \<and> (Reply x = NetError e \<longrightarrow> snd (postItem w t h m c x) = Some (TransportError e))"
proof -
  have "sublist (TrimSpace (take 4096 body)) (take 4096 body)" by (rule TrimSpace_sublist)
  then have sub: "sublist (TrimSpace (take 4096 body)) body"
    using sublist_take sublist_order.order_trans by blast
  show ?thesis
    using assms sub TrimSpace_length[of 4096 body] TrimSpace_clean[of "take 4096 body"]
    by (auto simp: postItem_def Let_def split: option.splits)
qed

theorem postItem_classification_witness:
  "NewRequest world0 (apiBase transformer0 @ ''/omnipub'') = None
   \<and> snd (postItem world0 transformer0 ''<h1>x</h1>'' Map.empty None
          \<lparr>Boundary = ''b'', Reply = Response 503 (''  busy '' @ [CHR 0x0A])\<rparr>) =
       Some (Errorf ''http 503 busy'')
   \<and> snd (postItem world0 transformer0 ''<h1>x</h1>'' Map.empty None
          \<lparr>Boundary = ''b'', Reply = Response 204 []\<rparr>) = None
   \<and> snd (postItem world0 transformer0 ''<h1>x</h1>'' Map.empty None
          \<lparr>Boundary = ''b'', Reply = NetError ''timeout''\<rparr>) = Some (TransportError ''timeout'')"
proof -
  have h: "NewRequest world0 (apiBase transformer0 @ ''/omnipub'') = None"
    by (simp add: world0_def)
  have f: "fmt_d 503 = ''503''"
    by (simp add: fmt_d_def itoa.simps digit_def)
  have tr: "TrimSpace (take 4096 (''  busy '' @ [CHR 0x0A])) = ''busy''"
    by (simp add: TrimSpace_def TrimLeftSpace_def TrimRightSpace_def White_Space_def)
  from postItem_classification[OF h, of "\<lparr>Boundary = ''b'', Reply = Response 503 (''  busy '' @ [CHR 0x0A])\<rparr>"
      503 "''  busy '' @ [CHR 0x0A]" "''<h1>x</h1>''" Map.empty None]
    postItem_classification[OF h, of "\<lparr>Boundary = ''b'', Reply = Response 204 []\<rparr>"
      204 "[]" "''<h1>x</h1>''" Map.empty None]
    postItem_classification[OF h, of "\<lparr>Boundary = ''b'', Reply = NetError ''timeout''\<rparr>"
      _ _ "''<h1>x</h1>''" Map.empty None "''timeout''"]
  show ?thesis using h f tr by simp
qed

subsection \<open>Decimal numerals and the form fields\<close>

lemma digit_value_digit: "d < 10 \<Longrightarrow> digit_value (digit d) = d"
proof -
  assume "d < 10"
  then have "d = 0 \<or> d = 1 \<or> d = 2 \<or> d = 3 \<or> d = 4 \<or> d = 5 \<or> d = 6
    \<or> d = 7 \<or> d = 8 \<or> d = 9" by presburger
  then show ?thesis by (elim disjE) (simp_all add: digit_def digit_value_def)
qed

lemma digit_in: "d < 10 \<Longrightarrow> digit d \<in> set ''0123456789''"
  unfolding digit_def by (rule nth_mem) simp

lemma itoa_digits: "set (itoa n) \<subseteq> set ''0123456789''"
proof (induction n rule: itoa.induct)
  case (1 n)
  show ?case
  proof (cases "n < 10")
    case True
    then show ?thesis using digit_in[of n] by (subst itoa.simps) simp
  next
    case False
    moreover have "n mod 10 < 10" by simp
    ultimately show ?thesis using 1 digit_in[of "n mod 10"] by (subst itoa.simps) simp
  qed
qed

lemma itoa_value: "foldl (\<lambda>a c. 10 * a + digit_value c) 0 (itoa n) = n"
proof (induction n rule: itoa.induct)
  case (1 n)
  show ?case
  proof (cases "n < 10")
    case True
    then show ?thesis by (subst itoa.simps) (simp add: digit_value_digit)
  next
    case False
    with 1 have "foldl (\<lambda>a c. 10 * a + digit_value c) 0 (itoa (n div 10)) = n div 10"
      by simp
    with False show ?thesis by (subst itoa.simps) (simp add: digit_value_digit)
  qed
qed

lemma postItem_form:
  "NewRequest w (apiBase t @ ''/omnipub'') = None \<Longrightarrow>
   \<exists>req. fst (postItem w t h m c x) = [req] \<and>
     Form req = [(''html_content'', h), (''metadata'', Marshal w m)] @
                (case c of None \<Rightarrow> [] | Some n \<Rightarrow> [(''collection_id'', fmt_d n)])"
  by (cases "Reply x") (auto simp: postItem_def Let_def split: option.splits)

text \<open>
  Claim C6, as the code has it. Every worker passes the collection identifier
  of the command line when it is greater than 0, and \<^verbatim>\<open>nil\<close> otherwise. So
  the request body has the field \<^verbatim>\<open>collection_id\<close>, after \<^verbatim>\<open>html_content\<close>
  and \<^verbatim>\<open>metadata\<close>, exactly when the configured identifier is positive, and
  its value is then the decimal numeral of the identifier: digits only, which
  denote the identifier. For 0 and for a negative identifier the body has the
  two other fields only.
\<close>

theorem collection_id_field:
  assumes "NewRequest w (apiBase t @ ''/omnipub'') = None"
  shows "\<exists>req. fst (postItem w t h m (collectionID cfg) x) = [req]
     \<and> Form req =
         [(''html_content'', h), (''metadata'', Marshal w m)] @
         (if collection cfg > 0 then [(''collection_id'', fmt_d (collection cfg))] else [])
     \<and> (''collection_id'' \<in> fst ` set (Form req) \<longleftrightarrow> collection cfg > 0)
     \<and> (collection cfg > 0 \<longrightarrow>
          fmt_d (collection cfg) = itoa (nat (collection cfg))
          \<and> set (fmt_d (collection cfg)) \<subseteq> set ''0123456789''
          \<and> int (foldl (\<lambda>a c. 10 * a + digit_value c) 0 (fmt_d (collection cfg))) = collection cfg)"
proof -
  from postItem_form[OF assms, of h m "collectionID cfg" x]
  obtain req where r: "fst (postItem w t h m (collectionID cfg) x) = [req]"
    "Form req = [(''html_content'', h), (''metadata'', Marshal w m)] @
                (case collectionID cfg of None \<Rightarrow> [] | Some n \<Rightarrow> [(''collection_id'', fmt_d n)])"
    by blast
  have d: "fmt_d (collection cfg) = itoa (nat (collection cfg))" if "collection cfg > 0"
    using that by (simp add: fmt_d_def)
  show ?thesis
    using r d itoa_digits[of "nat (collection cfg)"] itoa_value[of "nat (collection cfg)"]
    by (intro exI[of _ req]) (auto simp: collectionID_def)
qed

theorem collection_id_field_witness:
  "NewRequest world0 (apiBase transformer0 @ ''/omnipub'') = None
   \<and> map Form (fst (postItem world0 transformer0 ''<h1>x</h1>'' Map.empty
        (collectionID (defaults\<lparr>collection := 42\<rparr>)) \<lparr>Boundary = ''b'', Reply = Response 200 []\<rparr>)) =
       [[(''html_content'', ''<h1>x</h1>''), (''metadata'', ''{}''), (''collection_id'', ''42'')]]
   \<and> map Form (fst (postItem world0 transformer0 ''<h1>x</h1>'' Map.empty
        (collectionID defaults) \<lparr>Boundary = ''b'', Reply = Response 200 []\<rparr>)) =
       [[(''html_content'', ''<h1>x</h1>''), (''metadata'', ''{}'')]]"
proof -
  have h: "NewRequest world0 (apiBase transformer0 @ ''/omnipub'') = None"
    by (simp add: world0_def)
  have f: "fmt_d 42 = ''42''"
    by (simp add: fmt_d_def itoa.simps digit_def)
  have m: "Marshal world0 Map.empty = ''{}''" by (simp add: world0_def)
  from collection_id_field[OF h, of "''<h1>x</h1>''" Map.empty "defaults\<lparr>collection := 42\<rparr>"
      "\<lparr>Boundary = ''b'', Reply = Response 200 []\<rparr>"]
    collection_id_field[OF h, of "''<h1>x</h1>''" Map.empty defaults
      "\<lparr>Boundary = ''b'', Reply = Response 200 []\<rparr>"]
  show ?thesis using h f m by (auto simp: defaults_def)
qed

text \<open>
  The claim as written takes every identifier other than the default 0 as
  configured. With \<^verbatim>\<open>-collection -5\<close> the body has no \<^verbatim>\<open>collection_id\<close>.
\<close>

theorem collection_id_negative:
  "collection (defaults\<lparr>collection := - 5\<rparr>) \<noteq> 0
   \<and> map Form (fst (postItem world0 transformer0 ''<h1>x</h1>'' Map.empty
          (collectionID (defaults\<lparr>collection := - 5\<rparr>))
          \<lparr>Boundary = ''b'', Reply = Response 200 []\<rparr>)) =
       [[(''html_content'', ''<h1>x</h1>''), (''metadata'', ''{}'')]]"
  by (simp add: collectionID_def defaults_def postItem_def world0_def)

section \<open>Properties of the start of \<^verbatim>\<open>main\<close>\<close>

lemma Getenv_empty: "Getenv w k = [] \<longleftrightarrow> environ w k = None \<or> environ w k = Some []"
  by (simp add: Getenv_def split: option.splits)

text \<open>
  Claim C5. \<^verbatim>\<open>os.Getenv\<close> yields the empty string for a variable that is unset
  or empty. Then \<^verbatim>\<open>NewTransformer\<close> returns the error, and \<^verbatim>\<open>main\<close> ends with
  the fatal log line as its only effect and exit status 1, whatever the rest
  of the environment and the schedule are: no input list is read and no
  request is sent. With a non-empty value the construction succeeds and the
  header \<^verbatim>\<open>Authorization\<close> is \<^verbatim>\<open>Bearer\<close>, a blank and the value.
\<close>

theorem credential_checked_first:
  "(Getenv w k = [] \<longleftrightarrow> environ w k = None \<or> environ w k = Some [])
   \<and> (Getenv w k = [] \<longrightarrow> NewTransformer w b k n = Inl (EnvNotSet k))
   \<and> (Getenv w (apiKeyEnv cfg) = [] \<longrightarrow>
        main cfg w sched =
          Some \<lparr>effects = [Log (FatalError (EnvNotSet (apiKeyEnv cfg)))], status = 1,
                disk_after = disk w\<rparr>)
   \<and> (Getenv w k \<noteq> [] \<longrightarrow>
        (\<exists>t. NewTransformer w b k n = Inr t
           \<and> headers t = [''Authorization'' \<mapsto> [''Bearer '' @ Getenv w k]]
           \<and> headers t ''Authorization'' = Some [''Bearer '' @ Getenv w k]))"
proof -
  have unset: "NewTransformer w b k n = Inl (EnvNotSet k)" if "Getenv w k = []" for b k n
    using that by (simp add: NewTransformer_def Let_def)
  have fatal: "main cfg w sched =
      Some \<lparr>effects = [Log (FatalError (EnvNotSet (apiKeyEnv cfg)))], status = 1,
            disk_after = disk w\<rparr>" if "Getenv w (apiKeyEnv cfg) = []"
    using unset[OF that, of "api cfg" "maxConns cfg"] by (simp add: main_def)
  have set: "\<exists>t. NewTransformer w b k n = Inr t
      \<and> headers t = [''Authorization'' \<mapsto> [''Bearer '' @ Getenv w k]]
      \<and> headers t ''Authorization'' = Some [''Bearer '' @ Getenv w k]" if "Getenv w k \<noteq> []"
    using that by (simp add: NewTransformer_def Let_def)
  from Getenv_empty[of w k] unset[of k b n] fatal set show ?thesis by blast
qed

theorem credential_checked_first_witness:
  "Getenv (world0\<lparr>environ := Map.empty\<rparr>) (apiKeyEnv defaults) = []
   \<and> main defaults (world0\<lparr>environ := Map.empty\<rparr>) [] =
       Some \<lparr>effects = [Log (FatalError (EnvNotSet ''OMNIPUB_API_KEY''))], status = 1,
             disk_after = disk world0\<rparr>
   \<and> Getenv world0 ''OMNIPUB_API_KEY'' \<noteq> []
   \<and> (\<exists>t. NewTransformer world0 ''https://api.example.com/v2/'' ''OMNIPUB_API_KEY'' 256 = Inr t
        \<and> headers t ''Authorization'' = Some [''Bearer k''])"
proof -
  have a: "Getenv (world0\<lparr>environ := Map.empty\<rparr>) (apiKeyEnv defaults) = []"
    by (simp add: Getenv_def)
  have b: "Getenv world0 ''OMNIPUB_API_KEY'' = ''k''"
    by (simp add: Getenv_def world0_def)
  from credential_checked_first[of "world0\<lparr>environ := Map.empty\<rparr>" "apiKeyEnv defaults"
      "[]" 0 defaults "[]"] a
  have 1: "main defaults (world0\<lparr>environ := Map.empty\<rparr>) [] =
       Some \<lparr>effects = [Log (FatalError (EnvNotSet ''OMNIPUB_API_KEY''))], status = 1,
             disk_after = disk world0\<rparr>"
    by (simp add: defaults_def)
  from credential_checked_first[of world0 "''OMNIPUB_API_KEY''" "''https://api.example.com/v2/''"
      256 defaults "[]"] b
  have 2: "\<exists>t. NewTransformer world0 ''https://api.example.com/v2/'' ''OMNIPUB_API_KEY'' 256 = Inr t
        \<and> headers t ''Authorization'' = Some [''Bearer k'']"
    by auto
  from a b 1 2 show ?thesis by simp
qed

lemma readFileList_empty_file: "fs p = Some [] \<Longrightarrow> readFileList fs p = Inr []"
  by (simp add: readFileList_def ScanLines.simps)

text \<open>
  Claim C9, as the code has it. When the credential is set and the retry file
  or the directory listing yields no path, \<^verbatim>\<open>main\<close> returns with exit status 0
  for every schedule; its only effects are the reading of the list and the log
  line of line 197 that there are no files to process, so no request is sent
  and the summary line with the two counts is not printed.
\<close>

theorem empty_input_notice:
  assumes "Getenv w (apiKeyEnv cfg) \<noteq> []"
    and "(retryFile cfg \<noteq> [] \<and> readFileList (disk w) (retryFile cfg) = Inr [])
         \<or> (retryFile cfg = [] \<and> Glob w (dir cfg) = Inr [])"
  shows "main cfg w sched =
           Some \<lparr>effects = [if retryFile cfg \<noteq> [] then ReadList (retryFile cfg)
                             else ScanDir (dir cfg),
                            Log NothingToUpload],
                 status = 0, disk_after = disk w\<rparr>"
  using assms by (auto simp: main_def NewTransformer_def Let_def)

theorem empty_input_notice_witness:
  "Getenv world0 (apiKeyEnv defaults) \<noteq> []
   \<and> retryFile defaults = [] \<and> Glob (world0\<lparr>Glob := \<lambda>d. Inr []\<rparr>) (dir defaults) = Inr []
   \<and> main defaults (world0\<lparr>Glob := \<lambda>d. Inr []\<rparr>) [MainStep] =
       Some \<lparr>effects = [ScanDir ''.'', Log NothingToUpload], status = 0,
             disk_after = disk world0\<rparr>
   \<and> readFileList ((disk world0)(''retry.txt'' \<mapsto> [])) ''retry.txt'' = Inr []
   \<and> main (defaults\<lparr>retryFile := ''retry.txt''\<rparr>)
        (world0\<lparr>disk := (disk world0)(''retry.txt'' \<mapsto> [])\<rparr>) [] =
       Some \<lparr>effects = [ReadList ''retry.txt'', Log NothingToUpload], status = 0,
             disk_after = (disk world0)(''retry.txt'' \<mapsto> [])\<rparr>"
proof -
  have k: "Getenv world0 (apiKeyEnv defaults) \<noteq> []"
    "Getenv (world0\<lparr>Glob := \<lambda>d. Inr []\<rparr>) (apiKeyEnv defaults) \<noteq> []"
    "Getenv (world0\<lparr>disk := (disk world0)(''retry.txt'' \<mapsto> [])\<rparr>)
       (apiKeyEnv (defaults\<lparr>retryFile := ''retry.txt''\<rparr>)) \<noteq> []"
    by (simp_all add: Getenv_def world0_def defaults_def)
  have r: "readFileList ((disk world0)(''retry.txt'' \<mapsto> [])) ''retry.txt'' = Inr []"
    by (simp add: readFileList_empty_file)
  from empty_input_notice[of "world0\<lparr>Glob := \<lambda>d. Inr []\<rparr>" defaults "[MainStep]"] k
  have 1: "main defaults (world0\<lparr>Glob := \<lambda>d. Inr []\<rparr>) [MainStep] =
       Some \<lparr>effects = [ScanDir ''.'', Log NothingToUpload], status = 0,
             disk_after = disk world0\<rparr>"
    by (simp add: defaults_def)
  from empty_input_notice[of "world0\<lparr>disk := (disk world0)(''retry.txt'' \<mapsto> [])\<rparr>"
      "defaults\<lparr>retryFile := ''retry.txt''\<rparr>" "[]"] k r
  have 2: "main (defaults\<lparr>retryFile := ''retry.txt''\<rparr>)
        (world0\<lparr>disk := (disk world0)(''retry.txt'' \<mapsto> [])\<rparr>) [] =
       Some \<lparr>effects = [ReadList ''retry.txt'', Log NothingToUpload], status = 0,
             disk_after = (disk world0)(''retry.txt'' \<mapsto> [])\<rparr>"
    by (simp add: defaults_def)
  from k r 1 2 show ?thesis by (simp add: defaults_def)
qed

text \<open>
  The claim as written has the run report a summary of 0 successes and 0
  failures. The run over an empty directory with the default flags prints
  nothing: the line \<^verbatim>\<open>Done. Success: 0  Failure: 0\<close> is not among its effects.
\<close>

theorem empty_input_no_summary:
  "main defaults (world0\<lparr>Glob := \<lambda>d. Inr []\<rparr>) [] =
     Some \<lparr>effects = [ScanDir ''.'', Log NothingToUpload], status = 0,
           disk_after = disk world0\<rparr>
   \<and> Print (summary 0 0) \<notin> set [ScanDir ''.'', Log NothingToUpload]"
  by (simp add: main_def NewTransformer_def Let_def Getenv_def world0_def defaults_def)

section \<open>Properties of the list files\<close>

lemma write_paths_eq: "write_paths buf files = buf @ concat (map (\<lambda>f. f @ [CHR 0x0A]) files)"
  by (induction files arbitrary: buf) simp_all

lemma collect_paths_eq:
  "collect_paths acc tokens = acc @ filter (\<lambda>p. p \<noteq> []) (map TrimSpace tokens)"
  by (induction tokens arbitrary: acc) (simp_all add: Let_def)

lemma readFileList_eq:
  "fs p = Some data \<Longrightarrow> ScanLines data = Inr tokens \<Longrightarrow>
   readFileList fs p = Inr (filter (\<lambda>p. p \<noteq> []) (map TrimSpace tokens))"
  by (simp add: readFileList_def collect_paths_eq)

lemma ScanLines_line:
  assumes "CHR 0x0A \<notin> set f"
  shows "ScanLines (f @ CHR 0x0A # rest) =
           (if MaxScanTokenSize \<le> length f then Inl ErrTooLong
            else (case ScanLines rest of Inl e \<Rightarrow> Inl e | Inr ls \<Rightarrow> Inr (dropCR f # ls)))"
proof -
  from assms have "takeWhile (\<lambda>c. c \<noteq> CHR 0x0A) (f @ CHR 0x0A # rest) = f"
    by (induction f) auto
  then show ?thesis by (subst ScanLines.simps) (simp add: Let_def)
qed

lemma dropCR_id: "\<not> trailing_space f \<Longrightarrow> dropCR f = f"
proof -
  assume n: "\<not> trailing_space f"
  have "[CHR 0x0D] \<in> set White_Space" by (simp add: White_Space_def)
  with n have "\<not> suffix [CHR 0x0D] f" by (auto simp: trailing_space_iff)
  moreover have "suffix [last f] f" if "f \<noteq> []"
    using that by (metis append_butlast_last_id suffixI)
  ultimately show ?thesis by (auto simp: dropCR_def)
qed

lemma ScanLines_written:
  assumes "\<forall>f \<in> set files. CHR 0x0A \<notin> set f \<and> \<not> trailing_space f \<and> length f < MaxScanTokenSize"
  shows "ScanLines (concat (map (\<lambda>f. f @ [CHR 0x0A]) files)) = Inr files"
  using assms
proof (induction files)
  case Nil
  then show ?case by (simp add: ScanLines.simps)
next
  case (Cons f files)
  then have "ScanLines (concat (map (\<lambda>f. f @ [CHR 0x0A]) files)) = Inr files" by simp
  moreover from Cons.prems have "CHR 0x0A \<notin> set f" "\<not> MaxScanTokenSize \<le> length f"
    "dropCR f = f" by (simp_all add: dropCR_id)
  ultimately show ?case using ScanLines_line[of f] by simp
qed

text \<open>
  Claim C4, as the code has it. When \<^verbatim>\<open>saveFilesToFile\<close> succeeds, the file
  holds each path followed by a newline, in order. \<^verbatim>\<open>readFileList\<close> on that
  file returns the same list, provided that every path is non-empty after
  trimming, has no newline, has no white space at its start or end, and is
  shorter than 65536 bytes, the most that the line scanner accepts. For any
  file that the scanner can split, the reader returns the trimmed lines that
  are not empty.
\<close>

theorem failure_list_round_trip:
  assumes "saveFilesToFile w out files = (None, fs)"
    and "\<forall>f \<in> set files. TrimSpace f \<noteq> [] \<and> CHR 0x0A \<notin> set f
           \<and> \<not> leading_space f \<and> \<not> trailing_space f \<and> length f < MaxScanTokenSize"
  shows "fs out = Some (concat (map (\<lambda>f. f @ [CHR 0x0A]) files))
       \<and> readFileList fs out = Inr files
       \<and> (fs' p = Some data \<and> ScanLines data = Inr tokens \<longrightarrow>
            readFileList fs' p = Inr (filter (\<lambda>l. l \<noteq> []) (map TrimSpace tokens)))"
proof -
  let ?data = "concat (map (\<lambda>f. f @ [CHR 0x0A]) files)"
  from assms(1) have w: "fs out = Some ?data"
    by (auto simp: saveFilesToFile_def Let_def write_paths_eq split: option.splits)
  from assms(2) have s: "ScanLines ?data = Inr files"
    by (intro ScanLines_written) simp
  from assms(2) have "map TrimSpace files = files"
    by (intro map_idI) (simp add: TrimSpace_id)
  moreover from assms(2) have "filter (\<lambda>p. p \<noteq> []) files = files"
    by (intro filter_True) (auto simp: TrimSpace_id)
  ultimately have "readFileList fs out = Inr files"
    using readFileList_eq[of fs out, OF w s] by simp
  with w show ?thesis using readFileList_eq[of fs' p data tokens] by blast
qed

theorem failure_list_round_trip_witness:
  "saveFilesToFile world0 ''out.txt'' [''a.json'', ''d/b c.json''] =
     (None, (disk world0)(''out.txt'' \<mapsto> ''a.json'' @ [CHR 0x0A] @ ''d/b c.json'' @ [CHR 0x0A]))
   \<and> readFileList ((disk world0)(''out.txt'' \<mapsto> ''a.json'' @ [CHR 0x0A] @ ''d/b c.json'' @ [CHR 0x0A]))
       ''out.txt'' = Inr [''a.json'', ''d/b c.json'']"
proof -
  have s: "saveFilesToFile world0 ''out.txt'' [''a.json'', ''d/b c.json''] =
     (None, (disk world0)(''out.txt'' \<mapsto> ''a.json'' @ [CHR 0x0A] @ ''d/b c.json'' @ [CHR 0x0A]))"
    by (simp add: saveFilesToFile_def world0_def)
  have t: "TrimSpace ''a.json'' = ''a.json''" "TrimSpace ''d/b c.json'' = ''d/b c.json''"
    by (simp_all add: TrimSpace_def TrimLeftSpace_def TrimRightSpace_def White_Space_def)
  have c: "\<forall>f \<in> set [''a.json'', ''d/b c.json'']. TrimSpace f \<noteq> [] \<and> CHR 0x0A \<notin> set f
           \<and> \<not> leading_space f \<and> \<not> trailing_space f \<and> length f < MaxScanTokenSize"
    by (simp add: t leading_space_def trailing_space_def White_Space_def MaxScanTokenSize_def
        suffix_to_prefix)
  from failure_list_round_trip[OF s c] s show ?thesis by simp
qed

lemma leading_space_hd:
  "leading_space s \<Longrightarrow> s \<noteq> [] \<and> hd s \<in> set (map hd White_Space)"
  using White_Space_nonempty
  by (auto simp: leading_space_iff prefix_def) (metis hd_append2 image_eqI)+

lemma trailing_space_last:
  "trailing_space s \<Longrightarrow> s \<noteq> [] \<and> last s \<in> set (map last White_Space)"
  using White_Space_nonempty
  by (auto simp: trailing_space_iff suffix_def) (metis last_appendR image_eqI)+

lemma long_path_facts:
  "long_path \<noteq> []" "hd long_path = CHR ''a''" "last long_path = CHR ''a''"
  "set long_path = {CHR ''a''}" "length long_path = 65536"
  by (simp_all add: long_path_def hd_replicate last_replicate)

text \<open>
  The claim as written puts no bound on the length of a path. A path of 65536
  letters meets its three conditions and is written, but the reader returns
  the scanner's error \<^verbatim>\<open>bufio.ErrTooLong\<close> instead of the list.
\<close>

theorem long_path_breaks_round_trip:
  "TrimSpace long_path \<noteq> [] \<and> CHR 0x0A \<notin> set long_path
   \<and> \<not> leading_space long_path \<and> \<not> trailing_space long_path
   \<and> saveFilesToFile world0 ''out.txt'' [long_path] =
       (None, (disk world0)(''out.txt'' \<mapsto> long_path @ [CHR 0x0A]))
   \<and> readFileList ((disk world0)(''out.txt'' \<mapsto> long_path @ [CHR 0x0A])) ''out.txt'' =
       Inl ErrTooLong"
proof -
  have l: "\<not> leading_space long_path"
    using leading_space_hd[of long_path] by (auto simp: long_path_facts White_Space_def)
  have t: "\<not> trailing_space long_path"
    using trailing_space_last[of long_path] by (auto simp: long_path_facts White_Space_def)
  from l t have "TrimSpace long_path = long_path" by (rule TrimSpace_id)
  then have n: "TrimSpace long_path \<noteq> []" by (simp add: long_path_facts)
  have nl: "CHR 0x0A \<notin> set long_path" by (simp add: long_path_facts)
  have s: "saveFilesToFile world0 ''out.txt'' [long_path] =
       (None, (disk world0)(''out.txt'' \<mapsto> long_path @ [CHR 0x0A]))"
    by (simp add: saveFilesToFile_def world0_def)
  have "ScanLines (long_path @ CHR 0x0A # []) = Inl ErrTooLong"
    using ScanLines_line[OF nl, of "[]"] by (simp add: long_path_facts MaxScanTokenSize_def)
  then have r: "readFileList ((disk world0)(''out.txt'' \<mapsto> long_path @ [CHR 0x0A])) ''out.txt'' =
       Inl ErrTooLong"
    by (simp add: readFileList_def)
  from l t n nl s r show ?thesis by simp
qed


section \<open>Properties of the worker pool\<close>

subsection \<open>The invariant\<close>

lemma inv_init: "0 \<le> workers cfg \<Longrightarrow> inv cfg files init"
  by (simp add: inv_def init_def pending_def in_flight_def succeeded_def failed_def)

lemma held_update:
  "i < length gs \<Longrightarrow>
   mset (concat (map held (gs[i := g]))) + mset (held (gs ! i)) =
   mset (concat (map held gs)) + mset (held g)"
proof (induction gs arbitrary: i)
  case Nil
  then show ?case by simp
next
  case (Cons a gs)
  then show ?case by (cases i) (simp_all add: ac_simps)
qed

lemma word_succ:
  fixes x :: "64 word"
  assumes "unat x < n" and "n < 2 ^ 64"
  shows "unat (x + 1) = Suc (unat x)"
proof -
  from assms have "unat x + unat (1 :: 64 word) < 2 ^ LENGTH(64)" by simp
  then have "unat (x + 1) = unat x + unat (1 :: 64 word)" by (simp only: unat_add_lem)
  then show ?thesis by simp
qed

lemma processed_bound:
  assumes "inv cfg files s"
  shows "length (processed s) + length (in_flight s) \<le> length files"
proof -
  from assms have "mset (map fst (processed s)) + mset (in_flight s) = mset (pulled s)"
    and "pulled s @ jobs s @ pending files s = files"
    by (simp_all add: inv_def)
  then have "length (processed s) + length (in_flight s) = length (pulled s)"
    and "length (pulled s) \<le> length files"
    by (metis length_map size_mset size_union, metis le_add1 length_append)
  then show ?thesis by simp
qed

lemma counts_split: "length (succeeded s) + length (failed s) = length (processed s)"
  unfolding succeeded_def failed_def by (rule sum_length_filter_compl)

lemma inv_main_step:
  assumes "inv cfg files s" and "main_step cfg files s = Some s'"
  shows "inv cfg files s'"
proof (cases "pc s")
  case (Spawning n)
  with assms show ?thesis
    by (auto simp: main_step_def inv_def pending_def in_flight_def succeeded_def failed_def
        split: if_splits)
next
  case (Sending rest)
  show ?thesis
  proof (cases rest)
    case Nil
    with Sending assms show ?thesis
      by (auto simp: main_step_def inv_def pending_def in_flight_def succeeded_def failed_def)
  next
    case (Cons f rest')
    with Sending assms show ?thesis
      by (auto simp: main_step_def inv_def pending_def in_flight_def succeeded_def failed_def
          split: if_splits)
  qed
next
  case Waiting
  with assms show ?thesis
    by (auto simp: main_step_def inv_def pending_def in_flight_def succeeded_def failed_def
        split: if_splits)
next
  case Returned
  with assms show ?thesis by (simp add: main_step_def)
qed

lemma Exited_update:
  "Exited \<in> set (gs[i := g]) \<Longrightarrow> g \<noteq> Exited \<Longrightarrow> Exited \<in> set gs"
  using set_update_subset_insert[of gs i g] by auto

lemma not_all_Exited:
  "i < length gs \<Longrightarrow> gs ! i \<noteq> Exited \<Longrightarrow> \<not> list_all (\<lambda>g. g = Exited) gs"
  by (auto simp: list_all_length)

lemma inv_Recv:
  assumes "inv cfg files s" and "step cfg w t files (Recv i) s = Some s'"
  shows "inv cfg files s'"
proof -
  from assms(2) obtain f rest where j: "jobs s = f # rest" and i: "i < length (gor s)"
    "gor s ! i = Idle"
    and s': "s' = s\<lparr>jobs := rest, gor := (gor s)[i := Busy f], pulled := pulled s @ [f]\<rparr>"
    by (auto split: if_splits list.splits)
  from held_update[OF i(1), of "Busy f"] i(2)
  have h: "mset (in_flight s') = add_mset f (mset (in_flight s))"
    by (simp add: in_flight_def s')
  have p: "pending files s' = pending files s" by (simp add: pending_def s')
  have e: "Exited \<in> set (gor s') \<Longrightarrow> Exited \<in> set (gor s)"
    using Exited_update[of "gor s" i "Busy f"] by (simp add: s')
  from i have n: "\<not> list_all (\<lambda>g. g = Exited) (gor s)" by (intro not_all_Exited) auto
  from assms(1) j e n show ?thesis
    unfolding inv_def h p
    by (auto simp: s' succeeded_def failed_def split: main_pc.splits)
qed

lemma inv_Exit:
  assumes "inv cfg files s" and "step cfg w t files (Exit i) s = Some s'"
  shows "inv cfg files s'"
proof -
  from assms(2) have i: "i < length (gor s)" "gor s ! i = Idle" and c: "jobs s = []" "closed s"
    and s': "s' = s\<lparr>gor := (gor s)[i := Exited]\<rparr>"
    by (auto split: if_splits)
  from held_update[OF i(1), of Exited] i(2)
  have h: "mset (in_flight s') = mset (in_flight s)"
    by (simp add: in_flight_def s')
  have p: "pending files s' = pending files s" by (simp add: pending_def s')
  from i have n: "\<not> list_all (\<lambda>g. g = Exited) (gor s)" by (intro not_all_Exited) auto
  from assms(1) c n show ?thesis
    unfolding inv_def h p
    by (auto simp: s' succeeded_def failed_def split: main_pc.splits)
qed

lemma inv_Save:
  assumes "inv cfg files s" and "step cfg w t files (Save i) s = Some s'"
  shows "inv cfg files s'"
proof -
  from assms(2) obtain f where i: "i < length (gor s)" "gor s ! i = Saving f"
    and s': "s' = s\<lparr>failures := failures s @ [f], gor := (gor s)[i := Idle]\<rparr>"
    by (auto split: if_splits goroutine.splits)
  from held_update[OF i(1), of Idle] i(2)
  have h: "mset (in_flight s') = mset (in_flight s)"
    by (simp add: in_flight_def s')
  have p: "pending files s' = pending files s" by (simp add: pending_def s')
  have e: "Exited \<in> set (gor s') \<Longrightarrow> Exited \<in> set (gor s)"
    using Exited_update[of "gor s" i Idle] by (simp add: s')
  from i have n: "\<not> list_all (\<lambda>g. g = Exited) (gor s)" by (intro not_all_Exited) auto
  from assms(1) e n show ?thesis
    unfolding inv_def h p
    by (auto simp: s' succeeded_def failed_def split: main_pc.splits)
qed

lemma inv_Proc:
  assumes "inv cfg files s" and "length files < 2 ^ 64"
    and "step cfg w t files (Proc i x) s = Some s'"
  shows "inv cfg files s'"
proof -
  from assms(3) obtain f where i: "i < length (gor s)" "gor s ! i = Busy f"
    by (auto split: if_splits goroutine.splits)
  obtain reqs r where pf: "processFile w t f (collectionID cfg) x = (reqs, r)"
    by (cases "processFile w t f (collectionID cfg) x")
  from i have "Busy f \<in> set (gor s)" by (metis nth_mem)
  then have "f \<in> set (in_flight s)"
    by (auto simp: in_flight_def intro!: bexI[of _ "Busy f"])
  then have "1 \<le> length (in_flight s)" by (cases "in_flight s") auto
  with processed_bound[OF assms(1)] have lt: "length (processed s) < length files"
    by linarith
  from i have n: "\<not> list_all (\<lambda>g. g = Exited) (gor s)" by (intro not_all_Exited) auto
  have p: "pending files s' = pending files s"
    using assms(3) i pf by (auto simp: pending_def split: option.splits)
  show ?thesis
  proof (cases r)
    case None
    with assms(3) i pf
    have s': "s' = s\<lparr>ok := ok s + 1, trace := trace s @ map Sent reqs,
        gor := (gor s)[i := Idle], processed := processed s @ [(f, None)]\<rparr>"
      by simp
    from held_update[OF i(1), of Idle] i(2)
    have h: "add_mset f (mset (in_flight s')) = mset (in_flight s)"
      by (simp add: in_flight_def s')
    have e: "Exited \<in> set (gor s') \<Longrightarrow> Exited \<in> set (gor s)"
      using Exited_update[of "gor s" i Idle] by (simp add: s')
    from assms(1) have "unat (ok s) = length (succeeded s)" by (simp add: inv_def)
    moreover have "length (succeeded s) \<le> length (processed s)"
      by (simp add: succeeded_def)
    ultimately have "unat (ok s) < length files" using lt by simp
    then have k: "unat (ok s + 1) = Suc (unat (ok s))" using assms(2) by (rule word_succ)
    have m: "mset (map fst (processed s')) + mset (in_flight s') =
        mset (map fst (processed s)) + mset (in_flight s)"
      using h by (simp add: s')
    from assms(1) e n show ?thesis
      unfolding inv_def m p
      by (auto simp: s' k succeeded_def failed_def split: main_pc.splits)
  next
    case (Some err)
    let ?g = "if saveFailures cfg \<noteq> [] then Saving f else Idle"
    from Some assms(3) i pf
    have s': "s' = s\<lparr>fail := fail s + 1,
        trace := trace s @ map Sent reqs @ [Log (FAIL f err)],
        gor := (gor s)[i := ?g], processed := processed s @ [(f, Some err)]\<rparr>"
      by simp
    from held_update[OF i(1), of ?g] i(2)
    have h: "add_mset f (mset (in_flight s')) = mset (in_flight s)"
      by (simp add: in_flight_def s')
    have e: "Exited \<in> set (gor s') \<Longrightarrow> Exited \<in> set (gor s)"
      using Exited_update[of "gor s" i ?g] by (simp add: s')
    from assms(1) have "unat (fail s) = length (failed s)" by (simp add: inv_def)
    moreover have "length (failed s) \<le> length (processed s)"
      by (simp add: failed_def)
    ultimately have "unat (fail s) < length files" using lt by simp
    then have k: "unat (fail s + 1) = Suc (unat (fail s))" using assms(2) by (rule word_succ)
    have m: "mset (map fst (processed s')) + mset (in_flight s') =
        mset (map fst (processed s)) + mset (in_flight s)"
      using h by (simp add: s')
    from assms(1) e n show ?thesis
      unfolding inv_def m p
      by (auto simp: s' k succeeded_def failed_def split: main_pc.splits)
  qed
qed

lemma inv_step:
  assumes "inv cfg files s" and "length files < 2 ^ 64"
    and "step cfg w t files e s = Some s'"
  shows "inv cfg files s'"
proof (cases e)
  case MainStep
  with assms show ?thesis using inv_main_step by simp
next
  case (Recv i)
  with assms show ?thesis using inv_Recv by blast
next
  case (Proc i x)
  with assms show ?thesis using inv_Proc by blast
next
  case (Save i)
  with assms show ?thesis using inv_Save by blast
next
  case (Exit i)
  with assms show ?thesis using inv_Exit by blast
qed

lemma inv_exec:
  assumes "length files < 2 ^ 64"
  shows "inv cfg files s \<Longrightarrow> exec cfg w t files sched s = Some s' \<Longrightarrow> inv cfg files s'"
proof (induction sched arbitrary: s)
  case Nil
  then show ?case by simp
next
  case (Cons e sched)
  from Cons.prems(2) obtain s1 where 1: "step cfg w t files e s = Some s1"
    and 2: "exec cfg w t files sched s1 = Some s'"
    by (auto split: option.splits)
  from inv_step[OF Cons.prems(1) assms 1] have "inv cfg files s1" .
  then show ?case using 2 by (rule Cons.IH)
qed

subsection \<open>Progress and termination\<close>

lemma weight_update:
  "i < length gs \<Longrightarrow>
   sum_list (map weight (gs[i := g])) + weight (gs ! i) = sum_list (map weight gs) + weight g"
proof (induction gs arbitrary: i)
  case Nil
  then show ?case by simp
next
  case (Cons a gs)
  then show ?case by (cases i) (simp_all add: ac_simps)
qed

lemma rank_main_step:
  assumes "main_step cfg files s = Some s'"
  shows "rank cfg files s' < rank cfg files s"
proof (cases "pc s")
  case (Spawning n)
  with assms show ?thesis
    by (auto simp: main_step_def rank_def pending_def split: if_splits)
next
  case (Sending rest)
  with assms show ?thesis
    by (cases rest) (auto simp: main_step_def rank_def pending_def split: if_splits)
next
  case Waiting
  with assms show ?thesis
    by (auto simp: main_step_def rank_def pending_def split: if_splits)
next
  case Returned
  with assms show ?thesis by (simp add: main_step_def)
qed

lemma rank_step:
  assumes "step cfg w t files e s = Some s'"
  shows "rank cfg files s' < rank cfg files s"
proof (cases e)
  case MainStep
  with assms show ?thesis using rank_main_step by simp
next
  case (Recv i)
  with assms obtain f rest where j: "jobs s = f # rest" and i: "i < length (gor s)"
    "gor s ! i = Idle"
    and s': "s' = s\<lparr>jobs := rest, gor := (gor s)[i := Busy f], pulled := pulled s @ [f]\<rparr>"
    by (auto split: if_splits list.splits)
  from weight_update[OF i(1), of "Busy f"] i(2) j show ?thesis
    by (simp add: rank_def pending_def s')
next
  case (Proc i x)
  with assms obtain f where i: "i < length (gor s)" "gor s ! i = Busy f"
    by (auto split: if_splits goroutine.splits)
  obtain reqs r where pf: "processFile w t f (collectionID cfg) x = (reqs, r)"
    by (cases "processFile w t f (collectionID cfg) x")
  have "\<exists>g. weight g < 3 \<and> gor s' = (gor s)[i := g] \<and> pc s' = pc s \<and> jobs s' = jobs s"
  proof (cases r)
    case None
    with assms Proc i pf have "gor s' = (gor s)[i := Idle] \<and> pc s' = pc s \<and> jobs s' = jobs s"
      by auto
    then show ?thesis by (intro exI[of _ Idle]) simp
  next
    case (Some err)
    let ?g = "if saveFailures cfg \<noteq> [] then Saving f else Idle"
    from Some assms Proc i pf
    have "gor s' = (gor s)[i := ?g] \<and> pc s' = pc s \<and> jobs s' = jobs s"
      by auto
    then show ?thesis by (intro exI[of _ ?g]) simp
  qed
  then obtain g where g: "weight g < 3" "gor s' = (gor s)[i := g]" "pc s' = pc s"
    "jobs s' = jobs s" by blast
  from weight_update[OF i(1), of g] i(2) g show ?thesis
    by (simp add: rank_def pending_def)
next
  case (Save i)
  with assms obtain f where i: "i < length (gor s)" "gor s ! i = Saving f"
    and s': "s' = s\<lparr>failures := failures s @ [f], gor := (gor s)[i := Idle]\<rparr>"
    by (auto split: if_splits goroutine.splits)
  from weight_update[OF i(1), of Idle] i(2) show ?thesis
    by (simp add: rank_def pending_def s')
next
  case (Exit i)
  with assms have i: "i < length (gor s)" "gor s ! i = Idle"
    and s': "s' = s\<lparr>gor := (gor s)[i := Exited]\<rparr>"
    by (auto split: if_splits)
  from weight_update[OF i(1), of Exited] i(2) show ?thesis
    by (simp add: rank_def pending_def s')
qed

lemma exec_bounded:
  "exec cfg w t files sched s = Some s' \<Longrightarrow> length sched + rank cfg files s' \<le> rank cfg files s"
proof (induction sched arbitrary: s)
  case Nil
  then show ?case by simp
next
  case (Cons e sched)
  from Cons.prems obtain s1 where 1: "step cfg w t files e s = Some s1"
    and 2: "exec cfg w t files sched s1 = Some s'"
    by (auto split: option.splits)
  from rank_step[OF 1] Cons.IH[OF 2] show ?case by simp
qed

lemma exec_append:
  "exec cfg w t files (a @ b) s =
     (case exec cfg w t files a s of None \<Rightarrow> None | Some s1 \<Rightarrow> exec cfg w t files b s1)"
  by (induction a arbitrary: s) (simp_all split: option.splits)

lemma pool_progress:
  assumes "inv cfg files s" and "pc s \<noteq> Returned"
  shows "\<exists>e s'. step cfg w t files e s = Some s'"
proof (cases "pc s")
  case (Spawning n)
  then have "\<exists>s'. step cfg w t files MainStep s = Some s'"
    by (simp add: main_step_def)
  then show ?thesis by blast
next
  case (Sending rest)
  show ?thesis
  proof (cases rest)
    case Nil
    with Sending have "\<exists>s'. step cfg w t files MainStep s = Some s'"
      by (simp add: main_step_def)
    then show ?thesis by blast
  next
    case (Cons f rest')
    from assms(1) have "pulled s @ jobs s @ pending files s = files" by (simp add: inv_def)
    moreover from Sending Cons have "pending files s = f # rest'" by (simp add: pending_def)
    ultimately have "length (pulled s @ jobs s @ f # rest') = length files" by simp
    then have "length (jobs s) < length files" by simp
    with Sending Cons have "\<exists>s'. step cfg w t files MainStep s = Some s'"
      by (simp add: main_step_def)
    then show ?thesis by blast
  qed
next
  case Waiting
  show ?thesis
  proof (cases "list_all (\<lambda>g. g = Exited) (gor s)")
    case True
    with Waiting have "\<exists>s'. step cfg w t files MainStep s = Some s'"
      by (simp add: main_step_def)
    then show ?thesis by blast
  next
    case False
    then obtain i where i: "i < length (gor s)" "gor s ! i \<noteq> Exited"
      by (auto simp: list_all_length)
    from assms(1) Waiting have c: "closed s" by (simp add: inv_def)
    show ?thesis
    proof (cases "gor s ! i")
      case Idle
      show ?thesis
      proof (cases "jobs s")
        case Nil
        with Idle i c have "\<exists>s'. step cfg w t files (Exit i) s = Some s'" by simp
        then show ?thesis by blast
      next
        case (Cons f rest)
        with Idle i have "\<exists>s'. step cfg w t files (Recv i) s = Some s'" by simp
        then show ?thesis by blast
      qed
    next
      case (Busy f)
      with i have "\<exists>s'. step cfg w t files (Proc i x) s = Some s'" for x
        by (cases "processFile w t f (collectionID cfg) x") (auto split: option.splits)
      then show ?thesis by blast
    next
      case (Saving f)
      with i have "\<exists>s'. step cfg w t files (Save i) s = Some s'" by simp
      then show ?thesis by blast
    next
      case Exited
      with i show ?thesis by simp
    qed
  qed
next
  case Returned
  with assms show ?thesis by simp
qed

lemma pool_completes:
  assumes "length files < 2 ^ 64"
  shows "inv cfg files s \<Longrightarrow> \<exists>sched s'. exec cfg w t files sched s = Some s' \<and> pc s' = Returned"
proof (induction "rank cfg files s" arbitrary: s rule: less_induct)
  case less
  show ?case
  proof (cases "pc s = Returned")
    case True
    then have "exec cfg w t files [] s = Some s \<and> pc s = Returned" by simp
    then show ?thesis by blast
  next
    case False
    from pool_progress[OF less.prems False]
    obtain e s1 where 1: "step cfg w t files e s = Some s1" by blast
    from inv_step[OF less.prems assms 1] have "inv cfg files s1" .
    with less.hyps[OF rank_step[OF 1]]
    obtain sched s' where "exec cfg w t files sched s1 = Some s'" "pc s' = Returned" by blast
    with 1 have "exec cfg w t files (e # sched) s = Some s' \<and> pc s' = Returned" by simp
    then show ?thesis by blast
  qed
qed

subsection \<open>Accounting\<close>

lemma pool_inv:
  assumes "0 \<le> workers cfg" and "length files < 2 ^ 64"
    and "exec cfg w t files sched init = Some s"
  shows "inv cfg files s"
  using inv_exec[OF assms(2) inv_init[OF assms(1)] assms(3)] .

lemma inv_final:
  assumes i: "inv cfg files s" and "1 \<le> workers cfg" and a: "all_exited cfg s"
  shows "unat (ok s) + unat (fail s) = length files \<and> pulled s = files
      \<and> mset (map fst (processed s)) = mset files"
proof -
  from i have c: "unat (ok s) = length (succeeded s)" "unat (fail s) = length (failed s)"
    by (simp_all add: inv_def)
  from a assms(2) have g: "gor s \<noteq> []" "list_all (\<lambda>g. g = Exited) (gor s)"
    by (auto simp: all_exited_def)
  then have "Exited \<in> set (gor s)" by (cases "gor s") auto
  with i have cl: "closed s" "jobs s = []" unfolding inv_def by blast+
  from i have "closed s \<longleftrightarrow> pc s = Waiting \<or> pc s = Returned" by (simp add: inv_def)
  with cl have "pc s = Waiting \<or> pc s = Returned" by blast
  then have "pending files s = []" by (auto simp: pending_def)
  with i cl have p: "pulled s = files" by (simp add: inv_def)
  from g(2) have "in_flight s = []"
    by (auto simp: in_flight_def list_all_iff)
  with i p have m: "mset (map fst (processed s)) = mset files" by (simp add: inv_def)
  then have "length (processed s) = length files"
    by (metis length_map size_mset)
  with c counts_split[of s] have "unat (ok s) + unat (fail s) = length files" by simp
  with p m show ?thesis by simp
qed

lemma inv_Returned: "inv cfg files s \<Longrightarrow> pc s = Returned \<Longrightarrow> all_exited cfg s"
  by (simp add: inv_def all_exited_def)

subsection \<open>The pool against the schedule\<close>

lemma holds_update:
  "i < length (gor s) \<Longrightarrow> gor s' = (gor s)[i := g] \<Longrightarrow>
   holds s' = (holds s)(i := (case g of Busy f \<Rightarrow> Some f | _ \<Rightarrow> None))"
  by (rule ext) (simp add: holds_def nth_list_update)

lemma holds_append_Idle: "gor s' = gor s @ [Idle] \<Longrightarrow> holds s' = holds s"
  by (rule ext) (auto simp: holds_def nth_append)

lemma holds_same: "gor s' = gor s \<Longrightarrow> holds s' = holds s"
  by (simp add: holds_def cong: if_cong)

lemma main_step_quiet:
  assumes "main_step cfg files s = Some s'"
  shows "jobs s' @ pending files s' = jobs s @ pending files s \<and> holds s' = holds s
       \<and> trace s' = trace s \<and> processed s' = processed s \<and> pulled s' = pulled s"
proof (cases "pc s")
  case (Spawning n)
  show ?thesis
  proof (cases "int n < workers cfg")
    case True
    with Spawning assms have s': "s' = s\<lparr>gor := gor s @ [Idle], pc := Spawning (n + 1)\<rparr>"
      by (simp add: main_step_def)
    then have "holds s' = holds s" by (intro holds_append_Idle) simp
    with Spawning s' show ?thesis by (simp add: pending_def)
  next
    case False
    with Spawning assms have s': "s' = s\<lparr>pc := Sending files\<rparr>"
      by (simp add: main_step_def)
    then have "holds s' = holds s" by (intro holds_same) simp
    with Spawning s' show ?thesis by (simp add: pending_def)
  qed
next
  case (Sending rest)
  show ?thesis
  proof (cases rest)
    case Nil
    with Sending assms have s': "s' = s\<lparr>closed := True, pc := Waiting\<rparr>"
      by (simp add: main_step_def)
    then have "holds s' = holds s" by (intro holds_same) simp
    with Sending Nil s' show ?thesis by (simp add: pending_def)
  next
    case (Cons f rest')
    with Sending assms have s': "s' = s\<lparr>jobs := jobs s @ [f], pc := Sending rest'\<rparr>"
      by (simp add: main_step_def split: if_splits)
    then have "holds s' = holds s" by (intro holds_same) simp
    with Sending Cons s' show ?thesis by (simp add: pending_def)
  qed
next
  case Waiting
  with assms have s': "s' = s\<lparr>pc := Returned\<rparr>"
    by (simp add: main_step_def split: if_splits)
  then have "holds s' = holds s" by (intro holds_same) simp
  with Waiting s' show ?thesis by (simp add: pending_def)
next
  case Returned
  with assms show ?thesis by (simp add: main_step_def)
qed

lemma exec_served:
  "exec cfg w t files sched s = Some s' \<Longrightarrow> q = jobs s @ pending files s \<Longrightarrow> h = holds s \<Longrightarrow>
   trace s' = trace s @ concat (map (call_effects cfg w t) (served q h sched))
   \<and> processed s' = processed s @ map (call_result cfg w t) (served q h sched)
   \<and> map snd (served q h sched) = exchanges sched
   \<and> pulled s' = pulled s @ take (receives sched) q
   \<and> jobs s' @ pending files s' = drop (receives sched) q
   \<and> receives sched \<le> length q"
proof (induction sched arbitrary: s q h)
  case Nil
  then show ?case by simp
next
  case (Cons e sched)
  from Cons.prems(1) obtain s1 where 1: "step cfg w t files e s = Some s1"
    and 2: "exec cfg w t files sched s1 = Some s'"
    by (auto split: option.splits)
  note q = Cons.prems(2) and h = Cons.prems(3)
  show ?case
  proof (cases e)
    case MainStep
    with 1 have "main_step cfg files s = Some s1" by simp
    from main_step_quiet[OF this]
    have m: "q = jobs s1 @ pending files s1" "h = holds s1" "trace s1 = trace s"
      "processed s1 = processed s" "pulled s1 = pulled s"
      using q h by simp_all
    from Cons.IH[OF 2 m(1,2)] show ?thesis by (simp add: MainStep m)
  next
    case (Recv i)
    with 1 obtain f rest where j: "jobs s = f # rest" and i: "i < length (gor s)"
      and s1: "s1 = s\<lparr>jobs := rest, gor := (gor s)[i := Busy f], pulled := pulled s @ [f]\<rparr>"
      by (auto split: if_splits list.splits)
    from s1 have "gor s1 = (gor s)[i := Busy f]" by simp
    from holds_update[OF i this] h have h1: "h(i \<mapsto> f) = holds s1" by simp
    from s1 have p: "pending files s1 = pending files s" by (simp add: pending_def)
    define q' where "q' = rest @ pending files s"
    from q j have qq: "q = f # q'" by (simp add: q'_def)
    from s1 p have q1: "q' = jobs s1 @ pending files s1" by (simp add: q'_def)
    from s1 have m: "trace s1 = trace s" "processed s1 = processed s"
      "pulled s1 = pulled s @ [f]" by simp_all
    have sv: "served q h (e # sched) = served q' (h(i \<mapsto> f)) sched"
      "receives (e # sched) = Suc (receives sched)" "exchanges (e # sched) = exchanges sched"
      by (simp_all add: Recv qq)
    from Cons.IH[OF 2 q1 h1] show ?thesis unfolding sv m by (simp add: qq fun_upd_def)
  next
    case (Proc i x)
    with 1 obtain f where i: "i < length (gor s)" and b: "gor s ! i = Busy f"
      by (auto split: if_splits goroutine.splits)
    then have hi: "h i = Some f" by (simp add: h holds_def)
    obtain reqs r where pf: "processFile w t f (collectionID cfg) x = (reqs, r)"
      by (cases "processFile w t f (collectionID cfg) x")
    have "\<exists>g. (\<forall>f'. g \<noteq> Busy f') \<and> gor s1 = (gor s)[i := g] \<and> pc s1 = pc s \<and> jobs s1 = jobs s
        \<and> pulled s1 = pulled s
        \<and> trace s1 = trace s @ call_effects cfg w t (f, x)
        \<and> processed s1 = processed s @ [call_result cfg w t (f, x)]"
    proof (cases r)
      case None
      with 1 Proc i b pf show ?thesis
        by (intro exI[of _ Idle]) (auto simp: call_effects_def call_result_def call_def)
    next
      case (Some err)
      with 1 Proc i b pf show ?thesis
        by (intro exI[of _ "if saveFailures cfg \<noteq> [] then Saving f else Idle"])
          (auto simp: call_effects_def call_result_def call_def)
    qed
    then obtain g where g: "\<And>f'. g \<noteq> Busy f'" "gor s1 = (gor s)[i := g]"
      and k: "pc s1 = pc s" "jobs s1 = jobs s"
      and m: "pulled s1 = pulled s" "trace s1 = trace s @ call_effects cfg w t (f, x)"
      "processed s1 = processed s @ [call_result cfg w t (f, x)]"
      by blast
    from g(1) have "(case g of Busy f \<Rightarrow> Some f | _ \<Rightarrow> None) = None" by (cases g) auto
    with holds_update[OF i g(2)] h have h1: "h(i := None) = holds s1" by simp
    from k have q1: "q = jobs s1 @ pending files s1" by (simp add: q pending_def)
    have sv: "served q h (e # sched) = (f, x) # served q (h(i := None)) sched"
      "receives (e # sched) = receives sched" "exchanges (e # sched) = x # exchanges sched"
      by (simp_all add: Proc hi)
    from Cons.IH[OF 2 q1 h1] show ?thesis unfolding sv m by (simp add: fun_upd_def)
  next
    case (Save i)
    with 1 obtain f where i: "i < length (gor s)" and b: "gor s ! i = Saving f"
      and s1: "s1 = s\<lparr>failures := failures s @ [f], gor := (gor s)[i := Idle]\<rparr>"
      by (auto split: if_splits goroutine.splits)
    from i b have "holds s i = None" by (simp add: holds_def)
    moreover from s1 have "gor s1 = (gor s)[i := Idle]" by simp
    from holds_update[OF i this] have "holds s1 = (holds s)(i := None)" by simp
    ultimately have h1: "h = holds s1" using h by auto
    from s1 have q1: "q = jobs s1 @ pending files s1" by (simp add: q pending_def)
    from s1 have m: "trace s1 = trace s" "processed s1 = processed s" "pulled s1 = pulled s"
      by simp_all
    from Cons.IH[OF 2 q1 h1] show ?thesis by (simp add: Save m)
  next
    case (Exit i)
    with 1 have i: "i < length (gor s)" and b: "gor s ! i = Idle"
      and s1: "s1 = s\<lparr>gor := (gor s)[i := Exited]\<rparr>"
      by (auto split: if_splits)
    from i b have "holds s i = None" by (simp add: holds_def)
    moreover from s1 have "gor s1 = (gor s)[i := Exited]" by simp
    from holds_update[OF i this] have "holds s1 = (holds s)(i := None)" by simp
    ultimately have h1: "h = holds s1" using h by auto
    from s1 have q1: "q = jobs s1 @ pending files s1" by (simp add: q pending_def)
    from s1 have m: "trace s1 = trace s" "processed s1 = processed s" "pulled s1 = pulled s"
      by simp_all
    from Cons.IH[OF 2 q1 h1] show ?thesis by (simp add: Exit m)
  qed
qed

lemma holds_init: "holds init = Map.empty"
  by (simp add: holds_def init_def)

lemma pool_served:
  assumes "exec cfg w t files sched init = Some s"
  shows "trace s = concat (map (call_effects cfg w t) (served files Map.empty sched))"
    and "processed s = map (call_result cfg w t) (served files Map.empty sched)"
    and "map snd (served files Map.empty sched) = exchanges sched"
    and "pulled s = take (receives sched) files"
    and "jobs s @ pending files s = drop (receives sched) files"
    and "receives sched \<le> length files"
proof -
  have "files = jobs init @ pending files init" by (simp add: init_def pending_def)
  from exec_served[OF assms this holds_init[symmetric]]
  show "trace s = concat (map (call_effects cfg w t) (served files Map.empty sched))"
    and "processed s = map (call_result cfg w t) (served files Map.empty sched)"
    and "map snd (served files Map.empty sched) = exchanges sched"
    and "pulled s = take (receives sched) files"
    and "jobs s @ pending files s = drop (receives sched) files"
    and "receives sched \<le> length files"
    by (simp_all add: init_def)
qed

lemma call_result_fst: "map fst (map (call_result cfg w t) cs) = map fst cs"
  by (simp add: call_result_def)

lemma count_results:
  "length (filter (\<lambda>p. P (snd p)) (map (call_result cfg w t) cs)) =
   length (filter (\<lambda>c. P (snd (call cfg w t c))) cs)"
  by (induction cs) (simp_all add: call_result_def)

text \<open>
  Claim C1. Take a run of the pool over a non-empty list of \<open>K\<close> files with
  \<open>W\<close> workers, \<open>1 \<le> W \<le> K\<close>; a Go slice has fewer than \<open>2 ^ 63\<close> elements.
  In every state of the run, under every schedule and whatever the uploads
  return:
  \<^item> the receive steps have taken the files from the head of the queue one by
    one: what is in the buffer followed by what is still to send is the input
    list without its first \<open>r\<close> entries, \<open>r\<close> the number of receive steps;
  \<^item> every processing step of the schedule is one call of \<^verbatim>\<open>processFile\<close>, on
    the file that its worker received last and with the exchange of the step;
    the files so processed and the files held by workers are the first \<open>r\<close>
    entries of the input list, each once;
  \<^item> the trace of requests and \<^verbatim>\<open>FAIL\<close> lines is the effects of these calls,
    in order; the success counter is the number of these calls that returned
    \<^verbatim>\<open>nil\<close>, the failure counter the number of those that returned an error,
    so every call is counted by exactly one of the two, and the sum is at most
    \<open>K\<close>.

  When all \<open>W\<close> workers have left their loop, the schedule has exactly \<open>K\<close>
  receive steps and \<open>K\<close> processing steps, the buffer is empty, nothing is
  left to send or held, the files handed to \<^verbatim>\<open>processFile\<close> are the entries of
  the input list, each once, and the two counters add up to \<open>K\<close>. \<^verbatim>\<open>wg.Wait\<close>
  returns only then, and every run can be continued until it does.
\<close>

theorem every_file_processed_once:
  assumes "files \<noteq> []" and "1 \<le> workers cfg" and "workers cfg \<le> int (length files)"
    and "length files < 2 ^ 63"
    and "exec cfg w t files sched init = Some s"
  shows "unat (ok s) + unat (fail s) \<le> length files
       \<and> (all_exited cfg s \<longrightarrow>
            unat (ok s) + unat (fail s) = length files
          \<and> pulled s = files
          \<and> mset (map fst (processed s)) = mset files
          \<and> receives sched = length files
          \<and> length (exchanges sched) = length files
          \<and> jobs s = [] \<and> pending files s = [] \<and> in_flight s = []
          \<and> mset (map fst (served files Map.empty sched)) = mset files)
       \<and> jobs s @ pending files s = drop (receives sched) files
       \<and> pulled s = take (receives sched) files
       \<and> mset (map fst (served files Map.empty sched)) + mset (in_flight s) =
           mset (take (receives sched) files)
       \<and> map snd (served files Map.empty sched) = exchanges sched
       \<and> processed s = map (call_result cfg w t) (served files Map.empty sched)
       \<and> trace s = concat (map (call_effects cfg w t) (served files Map.empty sched))
       \<and> unat (ok s) =
           length (filter (\<lambda>c. snd (call cfg w t c) = None) (served files Map.empty sched))
       \<and> unat (fail s) =
           length (filter (\<lambda>c. snd (call cfg w t c) \<noteq> None) (served files Map.empty sched))
       \<and> unat (ok s) = length (succeeded s)
       \<and> unat (fail s) = length (failed s)
       \<and> length (succeeded s) + length (failed s) = length (processed s)
       \<and> (pc s = Returned \<longrightarrow> all_exited cfg s)
       \<and> (\<exists>sched' s'. exec cfg w t files (sched @ sched') init = Some s' \<and> pc s' = Returned)"
proof -
  let ?sv = "served files Map.empty sched"
  from assms(4) have lt: "length files < 2 ^ 64" by simp
  from assms(2) have "0 \<le> workers cfg" by simp
  from pool_inv[OF this lt assms(5)] have i: "inv cfg files s" .
  note sv = pool_served[OF assms(5)]
  from i have c: "unat (ok s) = length (succeeded s)" "unat (fail s) = length (failed s)"
    by (simp_all add: inv_def)
  have k: "unat (ok s) = length (filter (\<lambda>c. snd (call cfg w t c) = None) ?sv)"
    "unat (fail s) = length (filter (\<lambda>c. snd (call cfg w t c) \<noteq> None) ?sv)"
    unfolding c succeeded_def failed_def sv(2)
    by (rule count_results)+
  from i have "mset (map fst (processed s)) + mset (in_flight s) = mset (pulled s)"
    by (simp add: inv_def)
  then have cons: "mset (map fst ?sv) + mset (in_flight s) = mset (take (receives sched) files)"
    unfolding sv(2) sv(4) call_result_fst .
  from processed_bound[OF i] have b: "length (processed s) \<le> length files" by simp
  have fin: "unat (ok s) + unat (fail s) = length files \<and> pulled s = files
      \<and> mset (map fst (processed s)) = mset files
      \<and> receives sched = length files \<and> length (exchanges sched) = length files
      \<and> jobs s = [] \<and> pending files s = [] \<and> in_flight s = []
      \<and> mset (map fst ?sv) = mset files" if a: "all_exited cfg s"
  proof -
    note f = inv_final[OF i assms(2) a]
    from f sv(4) have "take (receives sched) files = files" by simp
    then have "length files \<le> receives sched"
      by (metis length_take min.cobounded2 min_def order_refl)
    with sv(6) have r: "receives sched = length files" by simp
    with sv(5) have e: "jobs s = []" "pending files s = []" by simp_all
    from a have "in_flight s = []"
      by (auto simp: all_exited_def in_flight_def list_all_iff)
    with cons r have m: "mset (map fst ?sv) = mset files" by simp
    then have "length ?sv = length files" by (metis length_map size_mset)
    with sv(3) have "length (exchanges sched) = length files" by (metis length_map)
    with f r e m \<open>in_flight s = []\<close> show ?thesis by simp
  qed
  from pool_completes[OF lt i, of w t]
  obtain sched' s' where "exec cfg w t files sched' s = Some s'" "pc s' = Returned" by blast
  with assms(5) have "exec cfg w t files (sched @ sched') init = Some s' \<and> pc s' = Returned"
    by (simp add: exec_append)
  then have live: "\<exists>sched' s'. exec cfg w t files (sched @ sched') init = Some s' \<and> pc s' = Returned"
    by blast
  from c b counts_split[of s] have 1: "unat (ok s) + unat (fail s) \<le> length files" by simp
  from counts_split[of s] have 2: "length (succeeded s) + length (failed s) = length (processed s)" .
  from 1 fin sv(5) sv(4) cons sv(3) sv(2) sv(1) k c 2 inv_Returned[OF i] live
  show ?thesis by blast
qed

lemma run0:
  "\<exists>s. exec two_workers world0 transformer0 [''a.json'', ''b.json''] schedule0 init = Some s
     \<and> pc s = Returned \<and> gor s = [Exited, Exited] \<and> ok s = 1 \<and> fail s = 1
     \<and> failures s = [''b.json''] \<and> pulled s = [''a.json'', ''b.json'']
     \<and> processed s = [(''b.json'', Some (Errorf ''http 500 oops'')), (''a.json'', None)]"
  by (simp add: schedule0_def two_workers_def defaults_def init_def main_step_def
      processFile_def postItem_def world0_def collectionID_def fmt_d_def itoa.simps digit_def
      TrimSpace_def TrimLeftSpace_def TrimRightSpace_def White_Space_def)

lemma served0:
  "served [''a.json'', ''b.json''] Map.empty schedule0 =
     [(''b.json'', \<lparr>Boundary = ''x'', Reply = Response 500 ''oops''\<rparr>),
      (''a.json'', \<lparr>Boundary = ''y'', Reply = Response 200 []\<rparr>)]"
  "receives schedule0 = 2"
  by (simp_all add: schedule0_def)

theorem every_file_processed_once_witness:
  "[''a.json'', ''b.json''] \<noteq> [] \<and> 1 \<le> workers two_workers
   \<and> workers two_workers \<le> int (length [''a.json'', ''b.json''])
   \<and> length [''a.json'', ''b.json''] < (2::nat) ^ 63
   \<and> served [''a.json'', ''b.json''] Map.empty schedule0 =
       [(''b.json'', \<lparr>Boundary = ''x'', Reply = Response 500 ''oops''\<rparr>),
        (''a.json'', \<lparr>Boundary = ''y'', Reply = Response 200 []\<rparr>)]
   \<and> (\<exists>s. exec two_workers world0 transformer0 [''a.json'', ''b.json''] schedule0 init = Some s
        \<and> all_exited two_workers s \<and> ok s = 1 \<and> fail s = 1
        \<and> unat (ok s) + unat (fail s) = 2
        \<and> jobs s = []
        \<and> pulled s = [''a.json'', ''b.json'']
        \<and> processed s = [(''b.json'', Some (Errorf ''http 500 oops'')), (''a.json'', None)]
        \<and> trace s =
            call_effects two_workers world0 transformer0
              (''b.json'', \<lparr>Boundary = ''x'', Reply = Response 500 ''oops''\<rparr>) @
            call_effects two_workers world0 transformer0
              (''a.json'', \<lparr>Boundary = ''y'', Reply = Response 200 []\<rparr>)
        \<and> length (trace s) = 3)"
proof -
  have h: "[''a.json'', ''b.json''] \<noteq> []" "1 \<le> workers two_workers"
    "workers two_workers \<le> int (length [''a.json'', ''b.json''])"
    "length [''a.json'', ''b.json''] < (2::nat) ^ 63"
    by (simp_all add: two_workers_def)
  from run0 obtain s where
    s: "exec two_workers world0 transformer0 [''a.json'', ''b.json''] schedule0 init = Some s"
    and r: "pc s = Returned" "ok s = 1" "fail s = 1"
      "processed s = [(''b.json'', Some (Errorf ''http 500 oops'')), (''a.json'', None)]"
    by blast
  note t = every_file_processed_once[OF h s]
  from t r have a: "all_exited two_workers s" by blast
  with t have f: "unat (ok s) + unat (fail s) = 2" "jobs s = []"
    "pulled s = [''a.json'', ''b.json'']" by simp_all
  from t have "trace s = concat (map (call_effects two_workers world0 transformer0)
      (served [''a.json'', ''b.json''] Map.empty schedule0))" by blast
  then have tr: "trace s =
      call_effects two_workers world0 transformer0
        (''b.json'', \<lparr>Boundary = ''x'', Reply = Response 500 ''oops''\<rparr>) @
      call_effects two_workers world0 transformer0
        (''a.json'', \<lparr>Boundary = ''y'', Reply = Response 200 []\<rparr>)"
    by (simp add: served0)
  then have l: "length (trace s) = 3"
    by (simp add: call_effects_def call_def processFile_def postItem_def world0_def Let_def)
  from h served0(1) s a r f tr l show ?thesis by blast
qed

text \<open>
  Without a worker nothing is uploaded: with \<^verbatim>\<open>-workers 0\<close> the main goroutine
  fills the buffer, closes the channel and returns from \<^verbatim>\<open>wg.Wait\<close> at once,
  both counters at 0.
\<close>

lemma no_worker_no_upload:
  "\<exists>s. exec (defaults\<lparr>workers := 0\<rparr>) world0 transformer0 [''a.json'', ''b.json'']
          [MainStep, MainStep, MainStep, MainStep, MainStep] init = Some s
     \<and> pc s = Returned \<and> ok s = 0 \<and> fail s = 0 \<and> jobs s = [''a.json'', ''b.json'']"
  by (simp add: defaults_def init_def main_step_def)

text \<open>
  The summary line of \<^verbatim>\<open>main\<close>: after a run over a non-empty list with at
  least one worker, the last effect is the line with the two counters, which
  add up to the number of files.
\<close>

lemma main_summary:
  assumes "Getenv w (apiKeyEnv cfg) \<noteq> []"
    and "(retryFile cfg \<noteq> [] \<and> readFileList (disk w) (retryFile cfg) = Inr files)
         \<or> (retryFile cfg = [] \<and> Glob w (dir cfg) = Inr files)"
    and "files \<noteq> []" and "1 \<le> workers cfg"
    and "length files < 2 ^ 63" and "main cfg w sched = Some r"
  shows "\<exists>k f. last (effects r) = Print (summary k f) \<and> unat k + unat f = length files"
proof -
  from assms(1) obtain t where t: "NewTransformer w (api cfg) (apiKeyEnv cfg) (maxConns cfg) = Inr t"
    by (auto simp: NewTransformer_def Let_def)
  from assms(2,3,6) t obtain s where s: "exec cfg w t files sched init = Some s"
    and p: "pc s = Returned" and l: "last (effects r) = Print (summary (ok s) (fail s))"
    by (auto simp: main_def Let_def split: option.splits if_splits prod.splits)
  from assms(4,5) have "0 \<le> workers cfg" "length files < 2 ^ 64" by simp_all
  from pool_inv[OF this s] have i: "inv cfg files s" .
  from inv_final[OF i assms(4) inv_Returned[OF i p]] l show ?thesis by blast
qed

end
